theory Spec2Isabelle
  imports Main "HOL-Library.Sublist"
begin

section \<open>Wide-to-long conversion of a spreadsheet block\<close>

text \<open>
  A shallow embedding of the data-processing core of \<^verbatim>\<open>wide_to_long_pyqt5.py\<close>:
  \<^verbatim>\<open>a1_to_rc\<close>, \<^verbatim>\<open>read_block_from_header\<close> and \<^verbatim>\<open>wide_to_long_from_excel\<close>.
  The Qt user interface is not modelled, except for the address check
  \<^verbatim>\<open>A1_REGEX.match\<close> that both callers run before the conversion.

  Boundaries of the model.
  \<^item> Strings are lists of \<^typ>\<open>char\<close>, so the model covers Python strings whose code points
    are below 256. On that range \<^verbatim>\<open>\d\<close> matches the ten ASCII digits only.
  \<^item> A cell value is null, a string, an integer or a boolean. Floating-point and date
    cells are outside the model, and so is the change of a column's dtype by pandas
    (an integer column holding a null is stored as floats of the same numeric value).
  \<^item> The workbook on disk is a parameter: whether the path exists, and the sheets that
    \<^verbatim>\<open>load_workbook\<close> returns. The failures of \<^verbatim>\<open>load_workbook\<close> itself (a file it
    cannot read, an extension openpyxl does not support) are not modelled. The file
    written is a value of the result.
\<close>

subsection \<open>Python strings\<close>

definition ord :: "char \<Rightarrow> int" where
  "ord c = of_char c"

text \<open>\<^verbatim>\<open>str.isspace\<close> on one character, for the code points below 256.\<close>

definition isspace :: "char \<Rightarrow> bool" where
  "isspace c = ((9 \<le> ord c \<and> ord c \<le> 13) \<or> (28 \<le> ord c \<and> ord c \<le> 32)
                 \<or> ord c = 133 \<or> ord c = 160)"

definition strip :: "string \<Rightarrow> string" where
  "strip s = rev (dropWhile isspace (rev (dropWhile isspace s)))"

text \<open>The character classes \<^verbatim>\<open>[A-Za-z]\<close> and \<^verbatim>\<open>\d\<close>.\<close>

definition is_letter :: "char \<Rightarrow> bool" where
  "is_letter c = ((65 \<le> ord c \<and> ord c \<le> 90) \<or> (97 \<le> ord c \<and> ord c \<le> 122))"

definition is_digit :: "char \<Rightarrow> bool" where
  "is_digit c = (48 \<le> ord c \<and> ord c \<le> 57)"

text \<open>
  \<^verbatim>\<open>str.upper\<close>, exact on ASCII. The source applies it to a run of \<^verbatim>\<open>[A-Za-z]\<close> only.
\<close>

definition upper_char :: "char \<Rightarrow> char" where
  "upper_char c = (if 97 \<le> ord c \<and> ord c \<le> 122 then char_of (ord c - 32) else c)"

definition upper :: "string \<Rightarrow> string" where
  "upper s = map upper_char s"

text \<open>
  \<^verbatim>\<open>str.lower\<close> on the code points below 256: the ASCII capitals and the Latin-1
  capitals (192 to 222 without the multiplication sign 215) move up by 32.
\<close>

definition lower_char :: "char \<Rightarrow> char" where
  "lower_char c =
     (if (65 \<le> ord c \<and> ord c \<le> 90) \<or> (192 \<le> ord c \<and> ord c \<le> 222 \<and> ord c \<noteq> 215)
      then char_of (ord c + 32) else c)"

definition lower :: "string \<Rightarrow> string" where
  "lower s = map lower_char s"

text \<open>The value of a run of decimal digits, read left to right; leading zeros add nothing.\<close>

definition int_of_digits :: "string \<Rightarrow> int" where
  "int_of_digits ds = foldl (\<lambda>n d. n * 10 + (ord d - 48)) 0 ds"

text \<open>\<^verbatim>\<open>str(n)\<close> for a natural number and for an integer.\<close>

fun str_nat :: "nat \<Rightarrow> string" where
  "str_nat n = (if n < 10 then [char_of (48 + n)] else str_nat (n div 10) @ [char_of (48 + n mod 10)])"

definition str_int :: "int \<Rightarrow> string" where
  "str_int i = (if i < 0 then CHR ''-'' # str_nat (nat (- i)) else str_nat (nat i))"

subsection \<open>Errors\<close>

text \<open>
  Every exception the modelled code can raise. The source raises \<^verbatim>\<open>ValueError\<close> with
  different messages; the constructors keep the raise sites apart.
\<close>

datatype stage = AtAnchor | AfterTrim

datatype error =
    InvalidAddress string    \<comment> \<open>\<^verbatim>\<open>a1_to_rc\<close>: the address does not match\<close>
  | BadCoordinate            \<comment> \<open>openpyxl's \<^verbatim>\<open>ws.cell\<close>: row or column below 1\<close>
  | EmptyBlock stage         \<comment> \<open>\<^verbatim>\<open>read_block_from_header\<close>: no data, or no valid data\<close>
  | FileNotFound             \<comment> \<open>the input path does not exist\<close>
  | NoSheet string           \<comment> \<open>\<^verbatim>\<open>wb[sheet_name]\<close>: no sheet of that name\<close>
  | MissingIdentifierColumn string
  | NoValueColumns
  | MeltLabels               \<comment> \<open>\<^verbatim>\<open>DataFrame.melt\<close> on clashing column labels\<close>
  | DigitLimit               \<comment> \<open>\<^verbatim>\<open>int\<close>: more digits than the interpreter allows\<close>
  | EmptyName                \<comment> \<open>\<^verbatim>\<open>Path.with_name\<close> on a path without a final component\<close>

subsection \<open>Cell addresses\<close>

text \<open>
  \<^verbatim>\<open>int(row_str)\<close> on a run of decimal digits. CPython 3.11 and later raises
  \<^verbatim>\<open>ValueError\<close> for a string of more than 4300 digits, the default of
  \<^verbatim>\<open>sys.int_info.default_max_str_digits\<close>; leading zeros are counted.
\<close>

definition max_str_digits :: nat where
  "max_str_digits = 4300"

definition py_int :: "string \<Rightarrow> error + int" where
  "py_int ds = (if max_str_digits < length ds then Inl DigitLimit else Inr (int_of_digits ds))"

text \<open>
  \<^verbatim>\<open>re.fullmatch(r"([A-Za-z]+)(\d+)", s)\<close> with its two groups. The two classes are
  disjoint, so the greedy letter run is the only possible first group.
\<close>

definition fullmatch_letters_digits :: "string \<Rightarrow> (string \<times> string) option" where
  "fullmatch_letters_digits s =
     (let ls = takeWhile is_letter s; ds = dropWhile is_letter s
      in if ls \<noteq> [] \<and> ds \<noteq> [] \<and> list_all is_digit ds then Some (ls, ds) else None)"

definition a1_to_rc :: "string \<Rightarrow> error + (int \<times> int)" where
  "a1_to_rc a1 =
     (case fullmatch_letters_digits (strip a1) of
        None \<Rightarrow> Inl (InvalidAddress a1)
      | Some (col_letters, row_str) \<Rightarrow>
          (let col = foldl (\<lambda>col ch. col * 26 + (ord ch - ord (CHR ''A'') + 1)) 0
                       (upper col_letters)
           in case py_int row_str of
                Inl e \<Rightarrow> Inl e
              | Inr row \<Rightarrow> Inr (row, col)))"

text \<open>
  \<^verbatim>\<open>A1_REGEX.match(s)\<close> for \<^verbatim>\<open>^[A-Za-z]+[1-9]\d*$\<close>, the check of both callers
  (\<^verbatim>\<open>ConvertWorker.run\<close> and \<^verbatim>\<open>start_convert\<close>). In Python \<^verbatim>\<open>$\<close> also matches just
  before a final newline.
\<close>

definition A1_REGEX_match :: "string \<Rightarrow> bool" where
  "A1_REGEX_match s =
     (let ls = takeWhile is_letter s; r = dropWhile is_letter s;
          ds = takeWhile is_digit r; e = dropWhile is_digit r
      in ls \<noteq> [] \<and> ds \<noteq> [] \<and> hd ds \<noteq> CHR ''0'' \<and> (e = [] \<or> e = [CHR 0x0A]))"

text \<open>
  The address grammar and the numbers of the specification: positional values in base
  26 (a letter counts from 1, in either case) and in base 10.
\<close>

definition letter_value :: "char \<Rightarrow> int" where
  "letter_value c = (if 97 \<le> ord c then ord c - 96 else ord c - 64)"

definition column_number :: "string \<Rightarrow> int" where
  "column_number ls = (\<Sum>k<length ls. letter_value (ls ! k) * 26 ^ (length ls - 1 - k))"

definition row_number :: "string \<Rightarrow> int" where
  "row_number ds = (\<Sum>k<length ds. (ord (ds ! k) - 48) * 10 ^ (length ds - 1 - k))"

definition letters_then_digits :: "string \<Rightarrow> bool" where
  "letters_then_digits s =
     (\<exists>ls ds. s = ls @ ds \<and> ls \<noteq> [] \<and> ds \<noteq> [] \<and> list_all is_letter ls \<and> list_all is_digit ds)"

subsection \<open>Cells and worksheets\<close>

datatype cell = CNone | CStr string | CInt int | CBool bool

text \<open>\<^verbatim>\<open>str(v)\<close> of a cell value.\<close>

definition py_str :: "cell \<Rightarrow> string" where
  "py_str v =
     (case v of
        CNone \<Rightarrow> ''None''
      | CStr s \<Rightarrow> s
      | CInt i \<Rightarrow> str_int i
      | CBool b \<Rightarrow> (if b then ''True'' else ''False''))"

text \<open>
  What the source reads of an openpyxl worksheet: \<^verbatim>\<open>max_row\<close>, \<^verbatim>\<open>max_column\<close> and
  the value of a cell. \<^verbatim>\<open>ws.cell(row=r, column=c)\<close> raises \<^verbatim>\<open>ValueError\<close> when a
  coordinate is below 1.
\<close>

record worksheet =
  max_row :: int
  max_column :: int
  cell_value :: "int \<Rightarrow> int \<Rightarrow> cell"

definition ws_cell :: "worksheet \<Rightarrow> int \<Rightarrow> int \<Rightarrow> error + cell" where
  "ws_cell ws r c = (if r < 1 \<or> c < 1 then Inl BadCoordinate else Inr (cell_value ws r c))"

text \<open>A \<^verbatim>\<open>for\<close> loop that appends one result per element and stops at the first raise.\<close>

fun traverse :: "('a \<Rightarrow> error + 'b) \<Rightarrow> 'a list \<Rightarrow> error + 'b list" where
  "traverse f [] = Inr []"
| "traverse f (x # xs) =
     (case f x of
        Inl e \<Rightarrow> Inl e
      | Inr y \<Rightarrow> (case traverse f xs of Inl e \<Rightarrow> Inl e | Inr ys \<Rightarrow> Inr (y # ys)))"

text \<open>
  The nested loops of \<^verbatim>\<open>read_block_from_header\<close> over \<^verbatim>\<open>range(start_r, max_r + 1)\<close>
  and \<^verbatim>\<open>range(start_c, max_c + 1)\<close>.
\<close>

definition read_rows :: "worksheet \<Rightarrow> int \<Rightarrow> int \<Rightarrow> error + cell list list" where
  "read_rows ws start_r start_c =
     traverse (\<lambda>r. traverse (\<lambda>c. ws_cell ws r c) [start_c..max_column ws])
       [start_r..max_row ws]"

subsection \<open>Extracting and trimming the block\<close>

text \<open>The test \<^verbatim>\<open>v is None or str(v).strip() == ""\<close> of both trimming helpers.\<close>

definition is_empty_cell :: "cell \<Rightarrow> bool" where
  "is_empty_cell v = (v = CNone \<or> strip (py_str v) = [])"

text \<open>
  \<^verbatim>\<open>col_is_all_none\<close> and \<^verbatim>\<open>row_is_all_none\<close>, with the list \<^verbatim>\<open>data\<close> they close
  over as an argument. Every row of \<^verbatim>\<open>data\<close> has the width of \<^verbatim>\<open>data[0]\<close>
  (lemma \<open>read_rows_rectangular\<close>), so \<^verbatim>\<open>row[ci]\<close> is always in range.
\<close>

definition col_is_all_none :: "cell list list \<Rightarrow> nat \<Rightarrow> bool" where
  "col_is_all_none data ci = list_all (\<lambda>row. is_empty_cell (row ! ci)) data"

definition row_is_all_none :: "cell list list \<Rightarrow> nat \<Rightarrow> bool" where
  "row_is_all_none data ri = list_all is_empty_cell (data ! ri)"

text \<open>
  Both loops \<^verbatim>\<open>while end > 0 and p(end - 1): end -= 1\<close>, started at \<open>n\<close>.
\<close>

fun trim_end :: "(nat \<Rightarrow> bool) \<Rightarrow> nat \<Rightarrow> nat" where
  "trim_end p 0 = 0"
| "trim_end p (Suc n) = (if p n then trim_end p n else Suc n)"

definition read_block_from_header :: "worksheet \<Rightarrow> string \<Rightarrow> error + cell list list" where
  "read_block_from_header ws header_cell =
     (case a1_to_rc header_cell of
        Inl e \<Rightarrow> Inl e
      | Inr (start_r, start_c) \<Rightarrow>
          (case read_rows ws start_r start_c of
             Inl e \<Rightarrow> Inl e
           | Inr data \<Rightarrow>
               if data = [] then Inl (EmptyBlock AtAnchor)
               else
                 let end_c = trim_end (col_is_all_none data) (length (hd data));
                     data1 = map (take end_c) data;
                     end_r = trim_end (row_is_all_none data1) (length data1);
                     data2 = take end_r data1
                 in if data2 = [] \<or> hd data2 = [] then Inl (EmptyBlock AfterTrim)
                    else Inr data2))"

subsection \<open>Reshaping\<close>

text \<open>
  The header names: the stripped text of each cell of the first row, and
  \<^verbatim>\<open>col_<i+1>\<close> where that text is empty.
\<close>

definition derive_header :: "cell list \<Rightarrow> string list" where
  "derive_header first_row =
     (let header = map (\<lambda>h. if h = CNone then [] else strip (py_str h)) first_row
      in map (\<lambda>(i, h). if h = [] then ''col_'' @ str_nat (i + 1) else h) (enumerate 0 header))"

text \<open>
  A pandas \<^verbatim>\<open>DataFrame\<close> built from a list of rows: the column labels and the rows.
  The long frame that \<^verbatim>\<open>melt\<close> returns has three columns, so each of its rows is a
  triple (identifier, variable, value).
\<close>

record dataframe =
  df_columns :: "string list"
  df_rows :: "cell list list"

record long_frame =
  long_columns :: "string list"
  long_rows :: "(cell \<times> string \<times> cell) list"

text \<open>\<^verbatim>\<open>isna\<close>: of the modelled cell values only null is missing; a blank string is not.\<close>

definition isna :: "cell \<Rightarrow> bool" where
  "isna v = (v = CNone)"

text \<open>\<^verbatim>\<open>dropna(how="all")\<close>: a row is dropped when every value of it is missing.\<close>

definition dropna_all :: "dataframe \<Rightarrow> dataframe" where
  "dropna_all df = df\<lparr>df_rows := filter (\<lambda>r. \<not> list_all isna r) (df_rows df)\<rparr>"

text \<open>
  \<^verbatim>\<open>df.melt(id_vars=[id_col], var_name=..., value_name=...)\<close>. Every column other than
  the identifier column is unpivoted, one column after the other: the result lists all
  rows for the first value column, then all rows for the second, and so on. The
  identifier column is found by its label; the value columns are taken by position.
  pandas rejects a value name that is already a column label. Where the identifier label
  is not unique, or the variable name equals the identifier or the value name, pandas
  does not build a three-column frame of this shape; the model stops there with
  \<open>MeltLabels\<close>.
\<close>

definition melt :: "dataframe \<Rightarrow> string \<Rightarrow> string \<Rightarrow> string \<Rightarrow> error + long_frame" where
  "melt df id_col var_name value_name =
     (let cols = df_columns df in
      if value_name \<in> set cols \<or> count_list cols id_col \<noteq> 1
         \<or> var_name = id_col \<or> var_name = value_name
      then Inl MeltLabels
      else
        let k = length (takeWhile (\<lambda>c. c \<noteq> id_col) cols);
            value_idx = filter (\<lambda>j. j \<noteq> k) [0..<length cols]
        in Inr \<lparr>long_columns = [id_col, var_name, value_name],
                long_rows = concat (map (\<lambda>j. map (\<lambda>r. (r ! k, cols ! j, r ! j)) (df_rows df))
                                     value_idx)\<rparr>)"

text \<open>
  Lines 81 to 87 of \<^verbatim>\<open>wide_to_long_from_excel\<close>: the frame built from the block, after
  \<^verbatim>\<open>dropna\<close>. The block comes from \<^verbatim>\<open>read_block_from_header\<close>, so it has a first row,
  that row has a first cell, and all rows have the width of the first
  (lemmas \<open>read_block_nonempty\<close> and \<open>read_block_rectangular\<close>).
\<close>

definition wide_table :: "cell list list \<Rightarrow> dataframe" where
  "wide_table data_block =
     dropna_all \<lparr>df_columns = derive_header (hd data_block), df_rows = tl data_block\<rparr>"

text \<open>
  \<^verbatim>\<open>id_col_name or header[0]\<close>: the first header name when the given name is \<^verbatim>\<open>None\<close>
  or empty.
\<close>

definition identifier_name :: "string option \<Rightarrow> string list \<Rightarrow> string" where
  "identifier_name id_col_name header =
     (case id_col_name of
        None \<Rightarrow> hd header
      | Some n \<Rightarrow> if n = [] then hd header else n)"

text \<open>Lines 81 to 98: from the block to the filtered long frame.\<close>

definition reshape ::
  "cell list list \<Rightarrow> string option \<Rightarrow> string \<Rightarrow> string \<Rightarrow> error + long_frame" where
  "reshape data_block id_col_name var_name value_name =
     (let df = wide_table data_block;
          id_col = identifier_name id_col_name (derive_header (hd data_block))
      in if id_col \<notin> set (df_columns df) then Inl (MissingIdentifierColumn id_col)
         else
           let value_cols = filter (\<lambda>c. c \<noteq> id_col) (df_columns df)
           in if value_cols = [] then Inl NoValueColumns
              else
                (case melt df id_col var_name value_name of
                   Inl e \<Rightarrow> Inl e
                 | Inr long_df \<Rightarrow>
                     Inr (long_df\<lparr>long_rows :=
                            filter (\<lambda>(i, v, x). \<not> isna x) (long_rows long_df)\<rparr>)))"

subsection \<open>Writing\<close>

text \<open>
  A path is its parent directory and its final component. \<^verbatim>\<open>suffix\<close> and \<^verbatim>\<open>stem\<close>
  split the final component at its last dot, unless that dot is its first or its last
  character.
\<close>

datatype path = Path (path_parent: "string list") (path_name: string)

definition rfind_dot :: "string \<Rightarrow> int" where
  "rfind_dot s =
     (if CHR ''.'' \<in> set s
      then int (length s) - 1 - int (length (takeWhile (\<lambda>c. c \<noteq> CHR ''.'') (rev s)))
      else - 1)"

definition path_suffix :: "path \<Rightarrow> string" where
  "path_suffix p =
     (let n = path_name p; i = rfind_dot n
      in if 0 < i \<and> i < int (length n) - 1 then drop (nat i) n else [])"

definition path_stem :: "path \<Rightarrow> string" where
  "path_stem p =
     (let n = path_name p; i = rfind_dot n
      in if 0 < i \<and> i < int (length n) - 1 then take (nat i) n else n)"

definition with_name :: "path \<Rightarrow> string \<Rightarrow> error + path" where
  "with_name p n = (if path_name p = [] then Inl EmptyName else Inr (Path (path_parent p) n))"

text \<open>
  The file written: where, in which format, and its rows. Both \<^verbatim>\<open>to_excel\<close> and
  \<^verbatim>\<open>to_csv\<close> are called with \<^verbatim>\<open>index=False\<close> and write the header row, then one row
  per record. Failures of the file system are not modelled.
\<close>

datatype file_format = Excel string | Csv

record written_file =
  file_path :: path
  file_format :: file_format
  file_rows :: "cell list list"

definition table_rows :: "long_frame \<Rightarrow> cell list list" where
  "table_rows t = map CStr (long_columns t) # map (\<lambda>(i, v, x). [i, CStr v, x]) (long_rows t)"

text \<open>
  Lines 100 to 110: the output path and the write. The result is the returned path and
  the file written.
\<close>

definition write_long :: "path \<Rightarrow> long_frame \<Rightarrow> error + (path \<times> written_file)" where
  "write_long input_path long_df =
     (let stem = path_stem input_path; suffix = path_suffix input_path
      in case with_name input_path
                (stem @ ''_long'' @ (if suffix \<noteq> [] then suffix else ''.xlsx'')) of
           Inl e \<Rightarrow> Inl e
         | Inr out_path \<Rightarrow>
             if lower suffix \<in> set [''.xlsx'', ''.xlsm'', ''.xltx'', ''.xltm'', ''.xls'']
             then Inr (out_path,
                       \<lparr>file_path = out_path, file_format = Excel ''long'',
                        file_rows = table_rows long_df\<rparr>)
             else
               (case with_name input_path (stem @ ''_long.csv'') of
                  Inl e \<Rightarrow> Inl e
                | Inr out_path' \<Rightarrow>
                    Inr (out_path',
                         \<lparr>file_path = out_path', file_format = Csv,
                          file_rows = table_rows long_df\<rparr>)))"

subsection \<open>The pipeline\<close>

text \<open>
  The workbook that \<^verbatim>\<open>load_workbook\<close> returns: its active sheet and its sheets by
  name. \<^verbatim>\<open>wb[sheet_name]\<close> raises \<^verbatim>\<open>KeyError\<close> for an unknown name, and an empty or
  absent name selects the active sheet.
\<close>

record workbook =
  active :: worksheet
  sheets :: "string \<rightharpoonup> worksheet"

definition select_sheet :: "workbook \<Rightarrow> string option \<Rightarrow> error + worksheet" where
  "select_sheet wb sheet_name =
     (case sheet_name of
        None \<Rightarrow> Inr (active wb)
      | Some n \<Rightarrow>
          if n = [] then Inr (active wb)
          else (case sheets wb n of None \<Rightarrow> Inl (NoSheet n) | Some ws \<Rightarrow> Inr ws))"

definition wide_to_long_from_excel ::
  "bool \<Rightarrow> workbook \<Rightarrow> path \<Rightarrow> string \<Rightarrow> string option \<Rightarrow> string option \<Rightarrow> string \<Rightarrow> string
     \<Rightarrow> error + (path \<times> written_file)" where
  "wide_to_long_from_excel path_exists wb input_path header_cell sheet_name id_col_name
       var_name value_name =
     (if \<not> path_exists then Inl FileNotFound
      else
        case select_sheet wb sheet_name of
          Inl e \<Rightarrow> Inl e
        | Inr ws \<Rightarrow>
            (case read_block_from_header ws header_cell of
               Inl e \<Rightarrow> Inl e
             | Inr data_block \<Rightarrow>
                 (case reshape data_block id_col_name var_name value_name of
                    Inl e \<Rightarrow> Inl e
                  | Inr long_df \<Rightarrow> write_long input_path long_df)))"

subsection \<open>Example worksheets\<close>

text \<open>
  A 3 by 3 sheet whose third row and third column are empty, and a 2 by 2 sheet whose
  only value is a blank string.
\<close>

definition sheet_3x3 :: worksheet where
  "sheet_3x3 = \<lparr>max_row = 3, max_column = 3,
     cell_value = (\<lambda>r c. if r = 1 \<and> c = 1 then CStr ''id''
                          else if r = 1 \<and> c = 2 then CStr ''2020''
                          else if r = 2 \<and> c = 1 then CStr ''x''
                          else if r = 2 \<and> c = 2 then CInt 10
                          else CNone)\<rparr>"

text \<open>A sheet that holds the given rows from \<^verbatim>\<open>A1\<close> on, and example sheets built so.\<close>

definition sheet_of :: "cell list list \<Rightarrow> worksheet" where
  "sheet_of rs = \<lparr>max_row = int (length rs), max_column = int (length (hd rs)),
     cell_value = (\<lambda>r c. if 1 \<le> r \<and> r \<le> int (length rs) \<and> 1 \<le> c
                              \<and> c \<le> int (length (rs ! nat (r - 1)))
                          then rs ! nat (r - 1) ! nat (c - 1) else CNone)\<rparr>"

definition sheet_years :: worksheet where
  "sheet_years = sheet_of [[CStr ''id'', CStr ''2020'', CStr ''2021''],
                           [CStr ''x'', CInt 10, CNone],
                           [CStr ''y'', CNone, CInt 30]]"

definition sheet_full :: worksheet where
  "sheet_full = sheet_of [[CStr ''id'', CStr ''a'', CStr ''b''],
                          [CStr ''x'', CInt 1, CInt 2],
                          [CStr ''y'', CInt 3, CInt 4]]"

definition sheet_blank_cell :: worksheet where
  "sheet_blank_cell = sheet_of [[CStr ''id'', CStr ''a''], [CStr ''x'', CStr '' '']]"

definition sheet_blank_row :: worksheet where
  "sheet_blank_row = sheet_of [[CStr ''id'', CStr ''a''], [CStr [], CStr '' ''],
                               [CStr ''x'', CInt 1]]"

definition sheet_same_names :: worksheet where
  "sheet_same_names = sheet_of [[CStr ''a'', CStr ''a'']]"

definition sheet_header_only :: worksheet where
  "sheet_header_only = sheet_of [[CStr ''id'', CStr ''a'']]"

definition sheet_null_row :: worksheet where
  "sheet_null_row = sheet_of [[CStr ''id'', CStr ''a''], [CNone, CNone], [CStr ''x'', CInt 1]]"

text \<open>A workbook with one sheet, which is the active one.\<close>

definition book_of :: "worksheet \<Rightarrow> workbook" where
  "book_of ws = \<lparr>active = ws, sheets = Map.empty\<rparr>"



section \<open>Properties of the address resolver\<close>

lemma digit_not_letter: "is_digit c \<Longrightarrow> \<not> is_letter c"
  by (auto simp: is_digit_def is_letter_def)

lemma digit_not_space: "is_digit c \<Longrightarrow> \<not> isspace c"
  by (auto simp: is_digit_def isspace_def)

lemma letter_not_space: "is_letter c \<Longrightarrow> \<not> isspace c"
  by (auto simp: is_letter_def isspace_def)

lemma fullmatch_split:
  assumes "ls \<noteq> []" "ds \<noteq> []" "list_all is_letter ls" "list_all is_digit ds"
  shows "fullmatch_letters_digits (ls @ ds) = Some (ls, ds)"
proof -
  obtain d ds' where ds: "ds = d # ds'"
    using assms(2) by (cases ds) auto
  have nl: "\<not> is_letter d"
    using assms(4) ds by (simp add: digit_not_letter)
  have all: "\<forall>x\<in>set ls. is_letter x"
    using assms(3) by (simp add: list_all_iff)
  have tw: "takeWhile is_letter (ls @ ds) = ls"
    using all nl ds by (simp add: takeWhile_append2)
  have dw: "dropWhile is_letter (ls @ ds) = ds"
    using all nl ds by (simp add: dropWhile_append2)
  show ?thesis
    using assms by (simp add: fullmatch_letters_digits_def tw dw)
qed

lemma fullmatch_Some:
  assumes "fullmatch_letters_digits s = Some (ls, ds)"
  shows "s = ls @ ds \<and> ls \<noteq> [] \<and> ds \<noteq> [] \<and> list_all is_letter ls \<and> list_all is_digit ds"
proof -
  have eq: "ls = takeWhile is_letter s" "ds = dropWhile is_letter s"
    and props: "ls \<noteq> []" "ds \<noteq> []" "list_all is_digit ds"
    using assms by (auto simp: fullmatch_letters_digits_def Let_def split: if_splits)
  have "list_all is_letter ls"
    unfolding eq list_all_iff by (auto dest: set_takeWhileD)
  moreover have "s = ls @ ds"
    unfolding eq by simp
  ultimately show ?thesis
    using props by simp
qed

lemma fullmatch_iff_grammar:
  "fullmatch_letters_digits s \<noteq> None \<longleftrightarrow> letters_then_digits s"
proof
  assume "fullmatch_letters_digits s \<noteq> None"
  then obtain ls ds where "fullmatch_letters_digits s = Some (ls, ds)"
    by (cases "fullmatch_letters_digits s") auto
  from fullmatch_Some [OF this] show "letters_then_digits s"
    unfolding letters_then_digits_def by blast
next
  assume "letters_then_digits s"
  then obtain ls ds where "s = ls @ ds" "ls \<noteq> []" "ds \<noteq> []"
      "list_all is_letter ls" "list_all is_digit ds"
    unfolding letters_then_digits_def by blast
  then show "fullmatch_letters_digits s \<noteq> None"
    using fullmatch_split [of ls ds] by simp
qed


lemma strip_id:
  assumes "s \<noteq> []" "\<not> isspace (hd s)" "\<not> isspace (last s)"
  shows "strip s = s"
proof -
  have 1: "dropWhile isspace s = s"
    using assms(1,2) by (cases s) auto
  have 2: "dropWhile isspace (rev s) = rev s"
    using assms(1,3) by (cases "rev s") (auto simp: last_rev [symmetric] simp del: last_rev)
  show ?thesis by (simp add: strip_def 1 2)
qed

lemma ord_upper_letter: "is_letter c \<Longrightarrow> ord (upper_char c) - ord (CHR ''A'') + 1 = letter_value c"
  by (auto simp: is_letter_def upper_char_def letter_value_def ord_def)

lemma letter_value_pos: "is_letter c \<Longrightarrow> 1 \<le> letter_value c"
  by (auto simp: is_letter_def letter_value_def)

lemma foldl_positional:
  fixes f :: "'a \<Rightarrow> int"
  shows "foldl (\<lambda>n x. n * b + f x) a xs
       = a * b ^ length xs + (\<Sum>k<length xs. f (xs ! k) * b ^ (length xs - 1 - k))"
proof (induction xs rule: rev_induct)
  case Nil
  then show ?case by simp
next
  case (snoc x xs)
  have "(\<Sum>k<length xs. f ((xs @ [x]) ! k) * b ^ (length xs - k))
      = (\<Sum>k<length xs. (f (xs ! k) * b ^ (length xs - 1 - k)) * b)"
  proof (rule sum.cong)
    fix k assume "k \<in> {..<length xs}"
    then have k: "k < length xs" by simp
    then have "length xs - k = Suc (length xs - 1 - k)" by simp
    then show "f ((xs @ [x]) ! k) * b ^ (length xs - k) = (f (xs ! k) * b ^ (length xs - 1 - k)) * b"
      using k by (simp add: nth_append)
  qed simp
  then show ?case
    using snoc by (simp add: algebra_simps sum_distrib_left sum_distrib_right)
qed

lemma int_of_digits_row_number: "int_of_digits ds = row_number ds"
  unfolding int_of_digits_def row_number_def
  using foldl_positional [of 10 "\<lambda>d. ord d - 48" 0 ds] by simp

lemma column_fold:
  assumes "list_all is_letter ls"
  shows "foldl (\<lambda>col ch. col * 26 + (ord ch - ord (CHR ''A'') + 1)) a (upper ls)
       = foldl (\<lambda>col ch. col * 26 + letter_value ch) a ls"
  using assms by (induction ls arbitrary: a) (simp_all add: upper_def ord_upper_letter)

lemma column_fold_number:
  assumes "list_all is_letter ls"
  shows "foldl (\<lambda>col ch. col * 26 + (ord ch - ord (CHR ''A'') + 1)) 0 (upper ls) = column_number ls"
  unfolding column_fold [OF assms] column_number_def
  using foldl_positional [of 26 letter_value 0 ls] by simp

lemma fold_letters_pos:
  assumes "list_all is_letter ls" "ls \<noteq> [] \<or> 1 \<le> a" "0 \<le> a"
  shows "1 \<le> foldl (\<lambda>col ch. col * 26 + letter_value ch) a ls"
  using assms
proof (induction ls arbitrary: a)
  case Nil
  then show ?case by simp
next
  case (Cons c cs)
  have "1 \<le> letter_value c" using Cons.prems(1) by (simp add: letter_value_pos)
  then have "1 \<le> a * 26 + letter_value c" "0 \<le> a * 26 + letter_value c"
    using Cons.prems(3) by auto
  then show ?case using Cons.IH [of "a * 26 + letter_value c"] Cons.prems(1) by simp
qed

lemma fold_digits_nonneg:
  assumes "list_all is_digit ds" "0 \<le> a"
  shows "a \<le> foldl (\<lambda>n d. n * 10 + (ord d - 48)) a ds"
  using assms
proof (induction ds arbitrary: a)
  case Nil
  then show ?case by simp
next
  case (Cons d ds)
  have "0 \<le> ord d - 48" using Cons.prems(1) by (simp add: is_digit_def)
  then have "a \<le> a * 10 + (ord d - 48)" using Cons.prems(2) by simp
  moreover have "a * 10 + (ord d - 48) \<le> foldl (\<lambda>n d. n * 10 + (ord d - 48)) (a * 10 + (ord d - 48)) ds"
    using Cons.IH [of "a * 10 + (ord d - 48)"] Cons.prems \<open>0 \<le> ord d - 48\<close> by simp
  ultimately show ?case by simp
qed

lemma int_of_digits_nonneg: "list_all is_digit ds \<Longrightarrow> 0 \<le> int_of_digits ds"
  unfolding int_of_digits_def using fold_digits_nonneg [of ds 0] by simp

lemma int_of_digits_pos:
  assumes "list_all is_digit ds" "ds \<noteq> []" "hd ds \<noteq> CHR ''0''"
  shows "1 \<le> int_of_digits ds"
proof -
  obtain d ds' where ds: "ds = d # ds'" using assms(2) by (cases ds) auto
  have "is_digit d" "d \<noteq> CHR ''0''" using assms ds by auto
  have "ord d \<noteq> 48"
  proof
    assume "ord d = 48"
    then have "(of_char d :: int) = of_char (CHR ''0'')" by (simp add: ord_def)
    then have "d = CHR ''0''" by (simp only: of_char_eq_iff)
    then show False using \<open>d \<noteq> CHR ''0''\<close> by simp
  qed
  then have "1 \<le> ord d - 48" using \<open>is_digit d\<close> by (simp add: is_digit_def)
  then have "1 \<le> foldl (\<lambda>n d. n * 10 + (ord d - 48)) (ord d - 48) ds'"
    using fold_digits_nonneg [of ds' "ord d - 48"] assms(1) ds by simp
  then show ?thesis by (simp add: int_of_digits_def ds)
qed



lemma strip_pad:
  assumes "list_all isspace w1" "list_all isspace w2" "m \<noteq> []"
    "\<not> isspace (hd m)" "\<not> isspace (last m)"
  shows "strip (w1 @ m @ w2) = m"
proof -
  have 1: "dropWhile isspace (w1 @ m @ w2) = m @ w2"
  proof -
    have "dropWhile isspace (w1 @ m @ w2) = dropWhile isspace (m @ w2)"
      using assms(1) by (simp add: list_all_iff dropWhile_append2)
    also have "\<dots> = m @ w2"
      using assms(3,4) by (cases m) auto
    finally show ?thesis .
  qed
  have 2: "dropWhile isspace (rev w2 @ rev m) = rev m"
  proof -
    have "dropWhile isspace (rev w2 @ rev m) = dropWhile isspace (rev m)"
      using assms(2) by (intro dropWhile_append2) (simp add: list_all_iff)
    also have "\<dots> = rev m"
      using assms(3,5) by (cases "rev m") (auto simp: last_rev [symmetric] simp del: last_rev)
    finally show ?thesis .
  qed
  show ?thesis by (simp add: strip_def 1 2)
qed

lemma strip_address:
  assumes "ls \<noteq> []" "ds \<noteq> []" "list_all is_letter ls" "list_all is_digit ds"
    "list_all isspace w1" "list_all isspace w2"
  shows "strip (w1 @ ls @ ds @ w2) = ls @ ds"
proof -
  have "\<not> isspace (hd (ls @ ds))"
    using assms(1,3) by (cases ls) (auto simp: letter_not_space)
  moreover have "\<not> isspace (last (ls @ ds))"
    using assms(2,4) by (auto simp: list_all_iff digit_not_space)
  ultimately have "strip (w1 @ (ls @ ds) @ w2) = ls @ ds"
    using assms(1,5,6) by (intro strip_pad) auto
  then show ?thesis by simp
qed

lemma a1_to_rc_matched:
  assumes "fullmatch_letters_digits (strip s) = Some (ls, ds)"
  shows "a1_to_rc s =
     (if max_str_digits < length ds then Inl DigitLimit
      else Inr (int_of_digits ds,
                foldl (\<lambda>col ch. col * 26 + (ord ch - ord (CHR ''A'') + 1)) 0 (upper ls)))"
  using assms by (simp add: a1_to_rc_def py_int_def)

lemma a1_to_rc_padded:
  assumes "ls \<noteq> []" "ds \<noteq> []" "list_all is_letter ls" "list_all is_digit ds"
    "list_all isspace w1" "list_all isspace w2"
  shows "a1_to_rc (w1 @ ls @ ds @ w2) =
     (if max_str_digits < length ds then Inl DigitLimit
      else Inr (row_number ds, column_number ls))"
proof -
  have "fullmatch_letters_digits (strip (w1 @ ls @ ds @ w2)) = Some (ls, ds)"
    unfolding strip_address [OF assms] using assms(1-4) by (rule fullmatch_split)
  then show ?thesis
    using assms(3)
    by (simp add: a1_to_rc_matched column_fold_number int_of_digits_row_number)
qed

lemma A1_REGEX_match_shape:
  assumes "A1_REGEX_match s"
  shows "\<exists>ls ds e. s = ls @ ds @ e \<and> ls \<noteq> [] \<and> ds \<noteq> [] \<and> list_all is_letter ls
           \<and> list_all is_digit ds \<and> hd ds \<noteq> CHR ''0'' \<and> list_all isspace e"
proof -
  define ls where "ls = takeWhile is_letter s"
  define r where "r = dropWhile is_letter s"
  define ds where "ds = takeWhile is_digit r"
  define e where "e = dropWhile is_digit r"
  have m: "ls \<noteq> []" "ds \<noteq> []" "hd ds \<noteq> CHR ''0''" "e = [] \<or> e = [CHR 0x0A]"
    using assms unfolding A1_REGEX_match_def Let_def ls_def r_def ds_def e_def by auto
  have "s = ls @ r" unfolding ls_def r_def by simp
  moreover have "r = ds @ e" unfolding ds_def e_def by simp
  ultimately have "s = ls @ ds @ e" by simp
  moreover have "list_all is_letter ls"
    unfolding ls_def list_all_iff by (auto dest: set_takeWhileD)
  moreover have "list_all is_digit ds"
    unfolding ds_def list_all_iff by (auto dest: set_takeWhileD)
  moreover have "list_all isspace e"
    using m(4) by (auto simp: isspace_def ord_def)
  ultimately show ?thesis using m by blast
qed

lemma a1_to_rc_Inr:
  assumes "a1_to_rc s = Inr (row, col)"
  shows "\<exists>ls ds. fullmatch_letters_digits (strip s) = Some (ls, ds)
           \<and> strip s = ls @ ds \<and> ls \<noteq> [] \<and> ds \<noteq> [] \<and> list_all is_letter ls
           \<and> list_all is_digit ds \<and> length ds \<le> max_str_digits \<and> row = int_of_digits ds
           \<and> col = foldl (\<lambda>col ch. col * 26 + letter_value ch) 0 ls"
proof (cases "fullmatch_letters_digits (strip s)")
  case None
  then show ?thesis using assms by (simp add: a1_to_rc_def)
next
  case (Some p)
  obtain ls ds where p: "p = (ls, ds)" by (cases p)
  note fm = fullmatch_Some [OF Some [unfolded p]]
  have "length ds \<le> max_str_digits" "row = int_of_digits ds"
    "col = foldl (\<lambda>col ch. col * 26 + (ord ch - ord (CHR ''A'') + 1)) 0 (upper ls)"
    using assms a1_to_rc_matched [OF Some [unfolded p]] by (auto split: if_splits)
  then show ?thesis using fm Some p column_fold [of ls 0] by auto
qed

subsection \<open>Claim C5: which addresses are rejected\<close>

text \<open>
  C5, as amended. \<^verbatim>\<open>a1_to_rc\<close> raises its own \<^verbatim>\<open>ValueError\<close> exactly on the inputs that,
  once stripped, are not one or more letters followed by one or more decimal digits.
  The only other error it raises is that of \<^verbatim>\<open>int\<close>, exactly when the stripped input
  is letters followed by more than 4300 digits. It fails on the empty string, on
  \<^verbatim>\<open>5\<close>, \<^verbatim>\<open>A\<close> and \<^verbatim>\<open>1A\<close>. A leading zero in the digit run is not rejected here; only
  the callers' check \<^verbatim>\<open>A1_REGEX.match\<close> rejects it.
\<close>

theorem a1_to_rc_fails_iff:
  "(a1_to_rc s = Inl (InvalidAddress s) \<longleftrightarrow> \<not> letters_then_digits (strip s))
   \<and> (\<forall>e. a1_to_rc s = Inl e \<longrightarrow> e = InvalidAddress s \<or> e = DigitLimit)
   \<and> (a1_to_rc s = Inl DigitLimit
        \<longleftrightarrow> (\<exists>ls ds. strip s = ls @ ds \<and> ls \<noteq> [] \<and> list_all is_letter ls
                     \<and> list_all is_digit ds \<and> max_str_digits < length ds))
   \<and> a1_to_rc '''' = Inl (InvalidAddress '''')
   \<and> a1_to_rc ''5'' = Inl (InvalidAddress ''5'')
   \<and> a1_to_rc ''A'' = Inl (InvalidAddress ''A'')
   \<and> a1_to_rc ''1A'' = Inl (InvalidAddress ''1A'')"
proof -
  have 1: "a1_to_rc s = Inl (InvalidAddress s) \<longleftrightarrow> \<not> letters_then_digits (strip s)"
  proof (cases "fullmatch_letters_digits (strip s)")
    case None
    then show ?thesis
      using fullmatch_iff_grammar [of "strip s"] by (simp add: a1_to_rc_def)
  next
    case (Some p)
    obtain ls ds where p: "p = (ls, ds)" by (cases p)
    have "letters_then_digits (strip s)"
      using fullmatch_iff_grammar [of "strip s"] Some by simp
    then show ?thesis
      using a1_to_rc_matched [OF Some [unfolded p]] by simp
  qed
  have 2: "\<forall>e. a1_to_rc s = Inl e \<longrightarrow> e = InvalidAddress s \<or> e = DigitLimit"
    by (auto simp: a1_to_rc_def py_int_def split: option.splits if_splits)
  have 3: "a1_to_rc s = Inl DigitLimit
        \<longleftrightarrow> (\<exists>ls ds. strip s = ls @ ds \<and> ls \<noteq> [] \<and> list_all is_letter ls
                     \<and> list_all is_digit ds \<and> max_str_digits < length ds)"
  proof
    assume e: "a1_to_rc s = Inl DigitLimit"
    then obtain ls ds where fm: "fullmatch_letters_digits (strip s) = Some (ls, ds)"
      by (cases "fullmatch_letters_digits (strip s)") (auto simp: a1_to_rc_def)
    have "max_str_digits < length ds"
      using e a1_to_rc_matched [OF fm] by (auto split: if_splits)
    then show "\<exists>ls ds. strip s = ls @ ds \<and> ls \<noteq> [] \<and> list_all is_letter ls
                     \<and> list_all is_digit ds \<and> max_str_digits < length ds"
      using fullmatch_Some [OF fm] by blast
  next
    assume "\<exists>ls ds. strip s = ls @ ds \<and> ls \<noteq> [] \<and> list_all is_letter ls
                     \<and> list_all is_digit ds \<and> max_str_digits < length ds"
    then obtain ls ds where s: "strip s = ls @ ds" and p: "ls \<noteq> []" "list_all is_letter ls"
      "list_all is_digit ds" and big: "max_str_digits < length ds"
      by blast
    have "ds \<noteq> []" using big by auto
    then have "fullmatch_letters_digits (strip s) = Some (ls, ds)"
      unfolding s using p by (intro fullmatch_split) auto
    then show "a1_to_rc s = Inl DigitLimit"
      using big by (simp add: a1_to_rc_matched)
  qed
  have 4: "a1_to_rc '''' = Inl (InvalidAddress '''')" by code_simp
  have 5: "a1_to_rc ''5'' = Inl (InvalidAddress ''5'')" by code_simp
  have 6: "a1_to_rc ''A'' = Inl (InvalidAddress ''A'')" by code_simp
  have 7: "a1_to_rc ''1A'' = Inl (InvalidAddress ''1A'')" by code_simp
  show ?thesis using 1 2 3 4 5 6 7 by blast
qed

text \<open>The equivalence used at an address with embedded punctuation.\<close>

theorem a1_to_rc_fails_iff_witness:
  "a1_to_rc ''B-7'' = Inl (InvalidAddress ''B-7'') \<and> \<not> letters_then_digits (strip ''B-7'')"
proof -
  have "a1_to_rc ''B-7'' = Inl (InvalidAddress ''B-7'')" by code_simp
  then show ?thesis using a1_to_rc_fails_iff [of "''B-7''"] by blast
qed

text \<open>
  C5 as stated fails: \<^verbatim>\<open>A01\<close> has a leading zero in its row part, and \<^verbatim>\<open>a1_to_rc\<close>
  returns row 1, column 1 for it.
\<close>

theorem a1_to_rc_accepts_leading_zero: "a1_to_rc ''A01'' = Inr (1, 1)"
  by code_simp

subsection \<open>Claim C6: the column in base 26, the row in base 10\<close>

text \<open>
  C6 as stated fails: an address of one letter and 4301 digits matches the pattern, but
  \<^verbatim>\<open>int\<close> refuses a string of that length and no address is returned.
\<close>

theorem a1_to_rc_long_row_fails:
  "a1_to_rc (''A'' @ replicate 4301 (CHR ''1'')) = Inl DigitLimit"
proof -
  have d: "is_digit (CHR ''1'')" by code_simp
  have l: "list_all is_letter ''A''" by code_simp
  have "a1_to_rc ([] @ ''A'' @ replicate 4301 (CHR ''1'') @ []) = Inl DigitLimit"
    using d l by (subst a1_to_rc_padded) (simp_all add: list_all_iff max_str_digits_def)
  then show ?thesis by simp
qed

text \<open>
  C6, as amended. For letters \<open>ls\<close> and at most 4300 digits \<open>ds\<close>, with optional
  surrounding whitespace, \<^verbatim>\<open>a1_to_rc\<close> returns the row that is the decimal value of
  \<open>ds\<close> and the column that is the value of \<open>ls\<close> in base 26 with A = 1 in either
  case. Both positional values are the left-to-right accumulations
  \<open>col * 26 + letter\<close> and \<open>n * 10 + digit\<close>. \<^verbatim>\<open>A1\<close>, \<^verbatim>\<open>Z1\<close>, \<^verbatim>\<open>AA1\<close> and
  \<^verbatim>\<open>BC10\<close> give (1,1), (1,26), (1,27) and (10,55).
\<close>

theorem a1_to_rc_base26:
  assumes "ls \<noteq> []" "ds \<noteq> []" "list_all is_letter ls" "list_all is_digit ds"
    "list_all isspace w1" "list_all isspace w2" "length ds \<le> max_str_digits"
  shows "a1_to_rc (w1 @ ls @ ds @ w2) = Inr (row_number ds, column_number ls)
       \<and> column_number ls = foldl (\<lambda>col ch. col * 26 + letter_value ch) 0 ls
       \<and> row_number ds = foldl (\<lambda>n d. n * 10 + (ord d - 48)) 0 ds
       \<and> a1_to_rc ''A1'' = Inr (1, 1) \<and> a1_to_rc ''Z1'' = Inr (1, 26)
       \<and> a1_to_rc ''AA1'' = Inr (1, 27) \<and> a1_to_rc ''BC10'' = Inr (10, 55)"
proof -
  have 1: "a1_to_rc (w1 @ ls @ ds @ w2) = Inr (row_number ds, column_number ls)"
    using a1_to_rc_padded [OF assms(1-6)] assms(7) by simp
  have 2: "column_number ls = foldl (\<lambda>col ch. col * 26 + letter_value ch) 0 ls"
    unfolding column_number_def using foldl_positional [of 26 letter_value 0 ls] by simp
  have 3: "row_number ds = foldl (\<lambda>n d. n * 10 + (ord d - 48)) 0 ds"
    using int_of_digits_row_number [of ds] by (simp add: int_of_digits_def)
  have 4: "a1_to_rc ''A1'' = Inr (1, 1)" by code_simp
  have 5: "a1_to_rc ''Z1'' = Inr (1, 26)" by code_simp
  have 6: "a1_to_rc ''AA1'' = Inr (1, 27)" by code_simp
  have 7: "a1_to_rc ''BC10'' = Inr (10, 55)" by code_simp
  show ?thesis using 1 2 3 4 5 6 7 by blast
qed

text \<open>The theorem at a lower-case address with a space on either side.\<close>

theorem a1_to_rc_base26_witness:
  "a1_to_rc '' bc10 '' = Inr (row_number ''10'', column_number ''bc'')
   \<and> a1_to_rc '' bc10 '' = Inr (10, 55)"
proof -
  have l: "list_all is_letter ''bc''" by code_simp
  have d: "list_all is_digit ''10''" by code_simp
  have w: "list_all isspace '' ''" by code_simp
  have n: "length ''10'' \<le> max_str_digits" by (simp add: max_str_digits_def)
  have "a1_to_rc ('' '' @ ''bc'' @ ''10'' @ '' '') = Inr (row_number ''10'', column_number ''bc'')"
    using a1_to_rc_base26 [of "''bc''" "''10''" "'' ''" "'' ''"] l d w n by simp
  moreover have "a1_to_rc '' bc10 '' = Inr (10, 55)" by code_simp
  ultimately show ?thesis by simp
qed

subsection \<open>Claim C9: bounds of a resolved address\<close>

text \<open>
  C9 as stated fails: \<^verbatim>\<open>A0\<close> is accepted and resolves to row 0.
\<close>

theorem a1_to_rc_row_zero: "a1_to_rc ''A0'' = Inr (0, 1)"
  by code_simp

text \<open>
  C9, as amended. Every address that \<^verbatim>\<open>a1_to_rc\<close> returns has a column of at least 1
  and a row of at least 0; the row is at least 1 when the input also passes the callers'
  check \<^verbatim>\<open>A1_REGEX.match\<close>, which demands a first digit other than zero.
\<close>

theorem a1_to_rc_bounds:
  assumes "a1_to_rc s = Inr (row, col)"
  shows "1 \<le> col \<and> 0 \<le> row \<and> (A1_REGEX_match s \<longrightarrow> 1 \<le> row)"
proof -
  from a1_to_rc_Inr [OF assms] obtain ls ds where
    fm: "fullmatch_letters_digits (strip s) = Some (ls, ds)"
    and ne: "ls \<noteq> []" "ds \<noteq> []"
    and cls: "list_all is_letter ls" "list_all is_digit ds"
    and row: "row = int_of_digits ds"
    and col: "col = foldl (\<lambda>col ch. col * 26 + letter_value ch) 0 ls"
    by blast
  have 1: "1 \<le> col"
    unfolding col using fold_letters_pos [of ls 0] cls(1) ne(1) by simp
  have 2: "0 \<le> row"
    unfolding row using cls(2) by (rule int_of_digits_nonneg)
  have 3: "1 \<le> row" if "A1_REGEX_match s"
  proof -
    from A1_REGEX_match_shape [OF that] obtain ls' ds' e where
      s': "s = ls' @ ds' @ e" and ne': "ls' \<noteq> []" "ds' \<noteq> []"
      and cls': "list_all is_letter ls'" "list_all is_digit ds'"
      and nz: "hd ds' \<noteq> CHR ''0''" and e: "list_all isspace e"
      by blast
    have "strip ([] @ ls' @ ds' @ e) = ls' @ ds'"
      using ne' cls' e by (intro strip_address) auto
    then have "fullmatch_letters_digits (strip s) = Some (ls', ds')"
      unfolding s' using ne' cls' by (simp add: fullmatch_split)
    then have "ds = ds'" using fm by simp
    then show ?thesis
      unfolding row using int_of_digits_pos [OF cls'(2) ne'(2) nz] by simp
  qed
  show ?thesis using 1 2 3 by blast
qed

text \<open>The bounds at \<^verbatim>\<open>BC10\<close>, which passes the callers' check.\<close>

theorem a1_to_rc_bounds_witness:
  "a1_to_rc ''BC10'' = Inr (10, 55) \<and> A1_REGEX_match ''BC10'' \<and> (1::int) \<le> 55 \<and> (1::int) \<le> 10"
proof -
  have a: "a1_to_rc ''BC10'' = Inr (10, 55)" by code_simp
  have m: "A1_REGEX_match ''BC10''" by code_simp
  show ?thesis using a1_to_rc_bounds [OF a] a m by simp
qed

section \<open>Properties of the block extractor\<close>

lemma traverse_Inr_map:
  assumes "traverse f xs = Inr ys" "\<And>x y. x \<in> set xs \<Longrightarrow> f x = Inr y \<Longrightarrow> y = g x"
  shows "ys = map g xs"
  using assms
proof (induction xs arbitrary: ys)
  case Nil
  then show ?case by simp
next
  case (Cons x xs)
  from Cons.prems(1) obtain y ys' where
    fx: "f x = Inr y" and t: "traverse f xs = Inr ys'" and ys: "ys = y # ys'"
    by (auto split: sum.splits)
  have "y = g x" using Cons.prems(2) fx by simp
  moreover have "ys' = map g xs" using Cons.IH [OF t] Cons.prems(2) by simp
  ultimately show ?case using ys by simp
qed


lemma read_rows_Inr:
  assumes "read_rows ws start_r start_c = Inr data"
  shows "data = map (\<lambda>r. map (\<lambda>c. cell_value ws r c) [start_c..max_column ws])
                  [start_r..max_row ws]"
proof -
  have inner: "row = map (\<lambda>c. cell_value ws r c) [start_c..max_column ws]"
    if "traverse (\<lambda>c. ws_cell ws r c) [start_c..max_column ws] = Inr row" for r row
    using that by (rule traverse_Inr_map) (auto simp: ws_cell_def split: if_splits)
  show ?thesis
    using assms unfolding read_rows_def
    by (rule traverse_Inr_map) (rule inner)
qed


lemma read_rows_rectangular:
  assumes "read_rows ws start_r start_c = Inr data" "row \<in> set data"
  shows "length row = length (hd data)"
proof -
  have "\<forall>x\<in>set data. length x = length [start_c..max_column ws]"
    unfolding read_rows_Inr [OF assms(1)] by auto
  moreover have "hd data \<in> set data"
    using assms(2) by (cases data) auto
  ultimately show ?thesis using assms(2) by simp
qed

lemma trim_end_le: "trim_end p n \<le> n"
  by (induction n) auto

lemma trim_end_tail: "trim_end p n \<le> j \<Longrightarrow> j < n \<Longrightarrow> p j"
proof (induction n)
  case 0
  then show ?case by simp
next
  case (Suc n)
  show ?case
  proof (cases "p n")
    case True
    then show ?thesis using Suc by (cases "j = n") auto
  next
    case False
    then show ?thesis using Suc.prems by simp
  qed
qed

lemma trim_end_last: "0 < trim_end p n \<Longrightarrow> \<not> p (trim_end p n - 1)"
  by (induction n) (auto split: if_splits)

lemma trim_end_above: "j < n \<Longrightarrow> \<not> p j \<Longrightarrow> j < trim_end p n"
  using trim_end_tail [of p n j] by (cases "trim_end p n \<le> j") auto

lemma trim_end_zero_iff: "trim_end p n = 0 \<longleftrightarrow> (\<forall>j<n. p j)"
proof
  assume "trim_end p n = 0"
  then show "\<forall>j<n. p j" using trim_end_tail [of p n] by simp
next
  assume "\<forall>j<n. p j"
  then show "trim_end p n = 0" by (induction n) auto
qed

lemma read_block_unfold:
  assumes "a1_to_rc header_cell = Inr (start_r, start_c)" "read_rows ws start_r start_c = Inr data"
  shows "read_block_from_header ws header_cell =
     (if data = [] then Inl (EmptyBlock AtAnchor)
      else
        let end_c = trim_end (col_is_all_none data) (length (hd data));
            data1 = map (take end_c) data;
            end_r = trim_end (row_is_all_none data1) (length data1);
            data2 = take end_r data1
        in if data2 = [] \<or> hd data2 = [] then Inl (EmptyBlock AfterTrim) else Inr data2)"
  using assms by (simp add: read_block_from_header_def)

lemma col_is_all_none_iff:
  "col_is_all_none data j \<longleftrightarrow> (\<forall>row\<in>set data. is_empty_cell (row ! j))"
  by (simp add: col_is_all_none_def list_all_iff)

lemma row_is_all_none_take:
  assumes "i < length data"
  shows "row_is_all_none (map (take n) data) i \<longleftrightarrow> (\<forall>v\<in>set (take n (data ! i)). is_empty_cell v)"
  using assms by (simp add: row_is_all_none_def list_all_iff)


lemma end_r_pos:
  assumes rect: "\<forall>row\<in>set data. length row = w"
    and pos: "0 < trim_end (col_is_all_none data) w"
  shows "0 < trim_end (row_is_all_none (map (take (trim_end (col_is_all_none data) w)) data))
               (length data)"
proof -
  define end_c where "end_c = trim_end (col_is_all_none data) w"
  have le: "end_c \<le> w" unfolding end_c_def by (rule trim_end_le)
  have "\<not> col_is_all_none data (end_c - 1)"
    using pos unfolding end_c_def by (rule trim_end_last)
  then obtain i where i: "i < length data" and ne: "\<not> is_empty_cell (data ! i ! (end_c - 1))"
    by (auto simp: col_is_all_none_iff in_set_conv_nth)
  have "length (data ! i) = w" using rect i by simp
  then have "data ! i ! (end_c - 1) \<in> set (take end_c (data ! i))"
    using pos le unfolding end_c_def [symmetric]
    by (auto simp: in_set_conv_nth intro!: exI [of _ "end_c - 1"])
  then have "\<not> row_is_all_none (map (take end_c) data) i"
    using ne i by (auto simp: row_is_all_none_take)
  then have "i < trim_end (row_is_all_none (map (take end_c) data)) (length data)"
    using i by (intro trim_end_above) auto
  then show ?thesis unfolding end_c_def by simp
qed

lemma end_r_zero:
  assumes "\<forall>row\<in>set d1. row = []" "n \<le> length d1"
  shows "trim_end (row_is_all_none d1) n = 0"
proof -
  have "row_is_all_none d1 j" if "j < n" for j
  proof -
    have "d1 ! j \<in> set d1" using that assms(2) by simp
    then have "d1 ! j = []" using assms(1) by blast
    then show ?thesis by (simp add: row_is_all_none_def)
  qed
  then show ?thesis by (simp add: trim_end_zero_iff)
qed


lemma trimmed_cases:
  assumes rect: "\<forall>row\<in>set data. length row = length (hd data)" and ne: "data \<noteq> []"
  defines "end_c \<equiv> trim_end (col_is_all_none data) (length (hd data))"
  defines "end_r \<equiv> trim_end (row_is_all_none (map (take end_c) data)) (length data)"
  shows "(end_c = 0 \<longrightarrow> take end_r (map (take end_c) data) = [])
       \<and> (0 < end_c \<longrightarrow> 0 < end_r \<and> take end_r (map (take end_c) data) \<noteq> []
                          \<and> hd (take end_r (map (take end_c) data)) \<noteq> [])"
proof (intro conjI impI)
  assume z: "end_c = 0"
  have "trim_end (row_is_all_none (map (take end_c) data)) (length data) = 0"
    by (rule end_r_zero) (simp_all add: z)
  then show "take end_r (map (take end_c) data) = []"
    unfolding end_r_def by simp
next
  assume pos: "0 < end_c"
  show r: "0 < end_r"
    unfolding end_r_def end_c_def using rect pos [unfolded end_c_def] by (rule end_r_pos)
  show "take end_r (map (take end_c) data) \<noteq> []"
    using r ne by simp
  have "end_c \<le> length (hd data)" unfolding end_c_def by (rule trim_end_le)
  then have "take end_c (hd data) \<noteq> []" using pos by auto
  moreover have "hd (take end_r (map (take end_c) data)) = take end_c (hd data)"
    using r ne by (cases data; cases end_r) auto
  ultimately show "hd (take end_r (map (take end_c) data)) \<noteq> []" by simp
qed

lemma read_block_result:
  assumes a: "a1_to_rc header_cell = Inr (start_r, start_c)"
    and d: "read_rows ws start_r start_c = Inr data"
  defines "end_c \<equiv> trim_end (col_is_all_none data) (length (hd data))"
  defines "end_r \<equiv> trim_end (row_is_all_none (map (take end_c) data)) (length data)"
  shows "read_block_from_header ws header_cell =
     (if data = [] then Inl (EmptyBlock AtAnchor)
      else if end_c = 0 then Inl (EmptyBlock AfterTrim)
      else Inr (take end_r (map (take end_c) data)))"
proof (cases "data = []")
  case True
  then show ?thesis using read_block_unfold [OF a d] by simp
next
  case False
  have rect: "\<forall>row\<in>set data. length row = length (hd data)"
    using read_rows_rectangular [OF d] by blast
  note tc = trimmed_cases [OF rect False, folded end_c_def, folded end_r_def]
  show ?thesis
  proof (cases "end_c = 0")
    case True
    with tc have "take end_r (map (take end_c) data) = []" by blast
    then show ?thesis
      unfolding read_block_unfold [OF a d] Let_def length_map
        end_c_def [symmetric] end_r_def [symmetric]
      using False True by (simp only: if_True if_False simp_thms)
  next
    case nz: False
    with tc have "take end_r (map (take end_c) data) \<noteq> []"
      "hd (take end_r (map (take end_c) data)) \<noteq> []" by blast+
    then show ?thesis
      unfolding read_block_unfold [OF a d] Let_def length_map
        end_c_def [symmetric] end_r_def [symmetric]
      using False nz by (simp only: if_True if_False simp_thms)
  qed
qed


lemma sheet_3x3_block: "read_block_from_header sheet_3x3 ''A1'' = Inr [[CStr ''id'', CStr ''2020''], [CStr ''x'', CInt 10]]"
  by code_simp

subsection \<open>Claim C4: trailing columns, then trailing rows\<close>

text \<open>
  C4. Let \<open>data\<close> be the block read at the anchor and \<open>block\<close> the block that
  \<^verbatim>\<open>read_block_from_header\<close> returns. Then \<open>block\<close> is the first \<open>end_r\<close> rows of
  \<open>data\<close>, each cut to its first \<open>end_c\<close> cells, where the columns from \<open>end_c\<close> on
  are exactly the trailing run of all-empty columns (column \<open>end_c - 1\<close> holds a
  non-empty cell, so no column before it is removed) and, on the narrowed rows, the rows
  from \<open>end_r\<close> on are exactly the trailing run of all-empty rows. The 3 by 3 sheet
  with an empty third row and third column, read at \<^verbatim>\<open>A1\<close>, gives a 2 by 2 block.
\<close>

theorem read_block_trims_columns_then_rows:
  assumes a: "a1_to_rc header_cell = Inr (start_r, start_c)"
    and d: "read_rows ws start_r start_c = Inr data"
    and b: "read_block_from_header ws header_cell = Inr block"
  shows "(\<exists>end_c end_r.
            block = take end_r (map (take end_c) data)
          \<and> 0 < end_c \<and> end_c \<le> length (hd data)
          \<and> (\<forall>j. end_c \<le> j \<and> j < length (hd data)
                 \<longrightarrow> (\<forall>row\<in>set data. is_empty_cell (row ! j)))
          \<and> (\<exists>row\<in>set data. \<not> is_empty_cell (row ! (end_c - 1)))
          \<and> 0 < end_r \<and> end_r \<le> length data
          \<and> (\<forall>i. end_r \<le> i \<and> i < length data
                 \<longrightarrow> (\<forall>v\<in>set (take end_c (data ! i)). is_empty_cell v))
          \<and> (\<exists>v\<in>set (take end_c (data ! (end_r - 1))). \<not> is_empty_cell v))
       \<and> read_block_from_header sheet_3x3 ''A1''
           = Inr [[CStr ''id'', CStr ''2020''], [CStr ''x'', CInt 10]]"
proof -
  define end_c where "end_c = trim_end (col_is_all_none data) (length (hd data))"
  define end_r where "end_r = trim_end (row_is_all_none (map (take end_c) data)) (length data)"
  note res = read_block_result [OF a d, folded end_c_def, folded end_r_def]
  have ne: "data \<noteq> []" and cpos: "0 < end_c"
    and blk: "block = take end_r (map (take end_c) data)"
    using b res by (auto split: if_splits)
  have rect: "\<forall>row\<in>set data. length row = length (hd data)"
    using read_rows_rectangular [OF d] by blast
  have rpos: "0 < end_r"
    using trimmed_cases [OF rect ne, folded end_c_def, folded end_r_def] cpos by blast
  have c1: "end_c \<le> length (hd data)"
    unfolding end_c_def by (rule trim_end_le)
  have c2: "\<forall>j. end_c \<le> j \<and> j < length (hd data) \<longrightarrow> (\<forall>row\<in>set data. is_empty_cell (row ! j))"
    using trim_end_tail [of "col_is_all_none data" "length (hd data)"]
    unfolding end_c_def [symmetric] by (simp add: col_is_all_none_iff)
  have c3: "\<exists>row\<in>set data. \<not> is_empty_cell (row ! (end_c - 1))"
    using trim_end_last [of "col_is_all_none data" "length (hd data)"] cpos
    unfolding end_c_def [symmetric] by (simp add: col_is_all_none_iff)
  have r1: "end_r \<le> length data"
    unfolding end_r_def by (rule trim_end_le)
  have r2: "\<forall>i. end_r \<le> i \<and> i < length data
              \<longrightarrow> (\<forall>v\<in>set (take end_c (data ! i)). is_empty_cell v)"
  proof (intro allI impI)
    fix i assume i: "end_r \<le> i \<and> i < length data"
    then have "row_is_all_none (map (take end_c) data) i"
      using trim_end_tail [of "row_is_all_none (map (take end_c) data)" "length data" i]
      unfolding end_r_def [symmetric] by simp
    then show "\<forall>v\<in>set (take end_c (data ! i)). is_empty_cell v"
      using i by (simp add: row_is_all_none_take)
  qed
  have r3: "\<exists>v\<in>set (take end_c (data ! (end_r - 1))). \<not> is_empty_cell v"
  proof -
    have "\<not> row_is_all_none (map (take end_c) data) (end_r - 1)"
      using trim_end_last [of "row_is_all_none (map (take end_c) data)" "length data"] rpos
      unfolding end_r_def [symmetric] by simp
    moreover have "end_r - 1 < length data" using rpos r1 by simp
    ultimately show ?thesis by (simp add: row_is_all_none_take)
  qed
  have ex: "read_block_from_header sheet_3x3 ''A1''
           = Inr [[CStr ''id'', CStr ''2020''], [CStr ''x'', CInt 10]]"
    by (rule sheet_3x3_block)
  show ?thesis
    using blk cpos c1 c2 c3 rpos r1 r2 r3 ex by blast
qed

lemma sheet_3x3_rows:
  "read_rows sheet_3x3 1 1 = Inr [[CStr ''id'', CStr ''2020'', CNone], [CStr ''x'', CInt 10, CNone],
                                  [CNone, CNone, CNone]]"
  by code_simp

lemma a1_A1: "a1_to_rc ''A1'' = Inr (1, 1)"
  by code_simp

text \<open>The theorem on the 3 by 3 sheet.\<close>

theorem read_block_trims_columns_then_rows_witness:
  "\<exists>end_c end_r.
      [[CStr ''id'', CStr ''2020''], [CStr ''x'', CInt 10]]
        = take end_r (map (take end_c)
            [[CStr ''id'', CStr ''2020'', CNone], [CStr ''x'', CInt 10, CNone], [CNone, CNone, CNone]])
      \<and> 0 < end_c \<and> 0 < end_r"
  using read_block_trims_columns_then_rows [OF a1_A1 sheet_3x3_rows sheet_3x3_block]
  by blast

subsection \<open>Claim C7: when the block is rejected as empty\<close>




section \<open>Properties of the writer\<close>

lemma suffix_data_xlsx: "path_suffix (Path d ''data.xlsx'') = ''.xlsx''" 
  by (simp add: path_suffix_def rfind_dot_def)
lemma stem_data_xlsx: "path_stem (Path d ''data.xlsx'') = ''data''" 
  by (simp add: path_stem_def rfind_dot_def)
lemma suffix_data_txt: "path_suffix (Path d ''data.txt'') = ''.txt''" 
  by (simp add: path_suffix_def rfind_dot_def)
lemma stem_data_txt: "path_stem (Path d ''data.txt'') = ''data''" 
  by (simp add: path_stem_def rfind_dot_def)
lemma suffix_data: "path_suffix (Path d ''data'') = ''''" 
  by (simp add: path_suffix_def rfind_dot_def)
lemma stem_data: "path_stem (Path d ''data'') = ''data''" 
  by (simp add: path_stem_def rfind_dot_def)
lemma lower_xlsx: "lower ''.xlsx'' = ''.xlsx''" by code_simp
lemma lower_txt: "lower ''.txt'' = ''.txt''" by code_simp

lemma write_long_general:
  assumes "path_name p \<noteq> []"
  shows "write_long p t =
     (let spreadsheet = (lower (path_suffix p) \<in> {''.xlsx'', ''.xlsm'', ''.xltx'', ''.xltm'', ''.xls''});
          out = Path (path_parent p)
                  (path_stem p @ ''_long'' @ (if spreadsheet then path_suffix p else ''.csv''))
      in Inr (out, \<lparr>file_path = out,
                    file_format = (if spreadsheet then Excel ''long'' else Csv),
                    file_rows = table_rows t\<rparr>))"
proof -
  have "lower [] \<notin> {''.xlsx'', ''.xlsm'', ''.xltx'', ''.xltm'', ''.xls''}"
    by (simp add: lower_def)
  then have ne: "lower (path_suffix p) \<in> {''.xlsx'', ''.xlsm'', ''.xltx'', ''.xltm'', ''.xls''}
      \<Longrightarrow> path_suffix p \<noteq> []"
    by metis
  show ?thesis
    using assms ne by (auto simp: write_long_def with_name_def Let_def)
qed

subsection \<open>Claim C8: the output path and format\<close>

text \<open>
  C8. For an input path with a final component, the file is written beside the input,
  under the name stem, \<^verbatim>\<open>_long\<close>, extension: the input's own extension when its lower
  case is one of \<^verbatim>\<open>.xlsx .xlsm .xltx .xltm .xls\<close> (written as a spreadsheet), and
  \<^verbatim>\<open>.csv\<close> otherwise (written as CSV). The path returned is the path written.
  \<^verbatim>\<open>data.xlsx\<close> gives \<^verbatim>\<open>data_long.xlsx\<close>; \<^verbatim>\<open>data.txt\<close> and \<^verbatim>\<open>data\<close> give
  \<^verbatim>\<open>data_long.csv\<close>.
\<close>

theorem write_long_target:
  assumes "path_name p \<noteq> []"
  shows "(\<exists>out wf. write_long p t = Inr (out, wf)
            \<and> file_path wf = out
            \<and> path_parent out = path_parent p
            \<and> path_name out = path_stem p @ ''_long''
                 @ (if lower (path_suffix p) \<in> {''.xlsx'', ''.xlsm'', ''.xltx'', ''.xltm'', ''.xls''}
                    then path_suffix p else ''.csv'')
            \<and> file_format wf
                 = (if lower (path_suffix p) \<in> {''.xlsx'', ''.xlsm'', ''.xltx'', ''.xltm'', ''.xls''}
                    then Excel ''long'' else Csv)
            \<and> file_rows wf = table_rows t)
       \<and> write_long (Path d ''data.xlsx'') t
           = Inr (Path d ''data_long.xlsx'',
                  \<lparr>file_path = Path d ''data_long.xlsx'', file_format = Excel ''long'',
                   file_rows = table_rows t\<rparr>)
       \<and> write_long (Path d ''data.txt'') t
           = Inr (Path d ''data_long.csv'',
                  \<lparr>file_path = Path d ''data_long.csv'', file_format = Csv,
                   file_rows = table_rows t\<rparr>)
       \<and> write_long (Path d ''data'') t
           = Inr (Path d ''data_long.csv'',
                  \<lparr>file_path = Path d ''data_long.csv'', file_format = Csv,
                   file_rows = table_rows t\<rparr>)"
proof -
  have 1: "\<exists>out wf. write_long p t = Inr (out, wf)
            \<and> file_path wf = out
            \<and> path_parent out = path_parent p
            \<and> path_name out = path_stem p @ ''_long''
                 @ (if lower (path_suffix p) \<in> {''.xlsx'', ''.xlsm'', ''.xltx'', ''.xltm'', ''.xls''}
                    then path_suffix p else ''.csv'')
            \<and> file_format wf
                 = (if lower (path_suffix p) \<in> {''.xlsx'', ''.xlsm'', ''.xltx'', ''.xltm'', ''.xls''}
                    then Excel ''long'' else Csv)
            \<and> file_rows wf = table_rows t"
    unfolding write_long_general [OF assms] Let_def by simp
  have 2: "write_long (Path d ''data.xlsx'') t
           = Inr (Path d ''data_long.xlsx'',
                  \<lparr>file_path = Path d ''data_long.xlsx'', file_format = Excel ''long'',
                   file_rows = table_rows t\<rparr>)"
    by (simp add: write_long_general Let_def suffix_data_xlsx stem_data_xlsx lower_xlsx)
  have 3: "write_long (Path d ''data.txt'') t
           = Inr (Path d ''data_long.csv'',
                  \<lparr>file_path = Path d ''data_long.csv'', file_format = Csv,
                   file_rows = table_rows t\<rparr>)"
    by (simp add: write_long_general Let_def suffix_data_txt stem_data_txt lower_txt)
  have 4: "write_long (Path d ''data'') t
           = Inr (Path d ''data_long.csv'',
                  \<lparr>file_path = Path d ''data_long.csv'', file_format = Csv,
                   file_rows = table_rows t\<rparr>)"
    by (simp add: write_long_general Let_def suffix_data stem_data lower_def)
  show ?thesis using 1 2 3 4 by blast
qed

text \<open>The theorem at an upper-case spreadsheet extension, which is kept as it is.\<close>

theorem write_long_target_witness:
  "path_name (Path [''home''] ''DATA.XLSX'') \<noteq> []
   \<and> (\<exists>out wf. write_long (Path [''home''] ''DATA.XLSX'')
                   \<lparr>long_columns = [''id'', ''variable'', ''value''], long_rows = []\<rparr>
                 = Inr (out, wf)
          \<and> file_path wf = out \<and> path_name out = ''DATA_long.XLSX''
          \<and> file_format wf = Excel ''long'')"
proof -
  have n: "path_name (Path [''home''] ''DATA.XLSX'') \<noteq> []" by simp
  have s: "path_suffix (Path [''home''] ''DATA.XLSX'') = ''.XLSX''"
    by (simp add: path_suffix_def rfind_dot_def)
  have st: "path_stem (Path [''home''] ''DATA.XLSX'') = ''DATA''"
    by (simp add: path_stem_def rfind_dot_def)
  have l: "lower ''.XLSX'' = ''.xlsx''" by code_simp
  from write_long_target
    [OF n, of "\<lparr>long_columns = [''id'', ''variable'', ''value''], long_rows = []\<rparr>" "[]"]
  obtain out wf where
    "write_long (Path [''home''] ''DATA.XLSX'')
        \<lparr>long_columns = [''id'', ''variable'', ''value''], long_rows = []\<rparr> = Inr (out, wf)"
    "file_path wf = out" "path_name out = ''DATA_long.XLSX''" "file_format wf = Excel ''long''"
    unfolding s st l by auto
  then show ?thesis using n by blast
qed

section \<open>Properties of the reshaper and of the pipeline\<close>

lemma takeWhile_index:
  assumes "x \<in> set xs"
  shows "length (takeWhile (\<lambda>c. c \<noteq> x) xs) < length xs
       \<and> xs ! length (takeWhile (\<lambda>c. c \<noteq> x) xs) = x"
  using assms by (induction xs) auto

lemma filter_as_indices:
  "filter P xs = map (\<lambda>i. xs ! i) (filter (\<lambda>i. P (xs ! i)) [0..<length xs])"
proof -
  have "filter P (map (\<lambda>i. xs ! i) [0..<length xs])
      = map (\<lambda>i. xs ! i) (filter (\<lambda>i. P (xs ! i)) [0..<length xs])"
    by (simp add: filter_map o_def)
  then show ?thesis by (simp add: map_nth)
qed

lemma sorted_wrt_concat_map:
  fixes js :: "nat list"
  assumes "sorted_wrt (<) js"
    and "\<forall>j\<in>set js. sorted_wrt R (f j)"
    and "\<forall>j\<in>set js. \<forall>j'\<in>set js. j < j' \<longrightarrow> (\<forall>x\<in>set (f j). \<forall>y\<in>set (f j'). R x y)"
  shows "sorted_wrt R (concat (map f js))"
  using assms
proof (induction js)
  case Nil
  then show ?case by simp
next
  case (Cons j js)
  have "sorted_wrt R (concat (map f js))"
    using Cons.prems by (intro Cons.IH) simp_all
  moreover have "sorted_wrt R (f j)" using Cons.prems(2) by simp
  moreover have "\<forall>x\<in>set (f j). \<forall>y\<in>set (concat (map f js)). R x y"
    using Cons.prems(1,3) by auto
  ultimately show ?case by (simp add: sorted_wrt_append)
qed

lemma reshape_Inr:
  assumes "reshape block idn var val = Inr out"
  defines "header \<equiv> derive_header (hd block)"
  defines "rws \<equiv> df_rows (wide_table block)"
  defines "idc \<equiv> identifier_name idn header"
  defines "k \<equiv> length (takeWhile (\<lambda>c. c \<noteq> idc) header)"
  shows "long_columns out = [idc, var, val]"
    and "long_rows out
       = concat (map (\<lambda>j. map (\<lambda>r. (r ! k, header ! j, r ! j)) (filter (\<lambda>r. r ! j \<noteq> CNone) rws))
                   (filter (\<lambda>j. j \<noteq> k) [0..<length header]))"
    and "k < length header" and "header ! k = idc"
    and "count_list header idc = 1" and "val \<notin> set header" and "var \<noteq> idc" and "var \<noteq> val"
proof -
  have cols: "df_columns (wide_table block) = header"
    by (simp add: wide_table_def dropna_all_def header_def)
  have in_hdr: "idc \<in> set header"
    using assms(1) unfolding reshape_def Let_def cols idc_def header_def
    by (auto split: if_splits)
  obtain long_df where m: "melt (wide_table block) idc var val = Inr long_df"
    and out: "out = long_df\<lparr>long_rows := filter (\<lambda>(i, v, x). \<not> isna x) (long_rows long_df)\<rparr>"
    using assms(1) unfolding reshape_def Let_def cols idc_def header_def
    by (auto split: if_splits sum.splits)
  have ok: "val \<notin> set header" "count_list header idc = 1" "var \<noteq> idc" "var \<noteq> val"
    and ld: "long_df = \<lparr>long_columns = [idc, var, val],
               long_rows = concat (map (\<lambda>j. map (\<lambda>r. (r ! k, header ! j, r ! j)) rws)
                                     (filter (\<lambda>j. j \<noteq> k) [0..<length header]))\<rparr>"
    using m unfolding melt_def Let_def cols rws_def [symmetric] k_def
    by (auto split: if_splits)
  show "long_columns out = [idc, var, val]" by (simp add: out ld)
  show "long_rows out
       = concat (map (\<lambda>j. map (\<lambda>r. (r ! k, header ! j, r ! j)) (filter (\<lambda>r. r ! j \<noteq> CNone) rws))
                   (filter (\<lambda>j. j \<noteq> k) [0..<length header]))"
    by (simp add: out ld filter_concat filter_map o_def isna_def)
  show "k < length header" "header ! k = idc"
    using takeWhile_index [OF in_hdr] unfolding k_def by simp_all
  show "count_list header idc = 1" "val \<notin> set header" "var \<noteq> idc" "var \<noteq> val"
    using ok by simp_all
qed

lemma sorted_filter_upt: "sorted_wrt (<) (filter P [0..<n])"
  by (rule sorted_wrt_filter) (rule sorted_wrt_upt)

lemma reshape_pairs:
  assumes "reshape block idn var val = Inr out"
  defines "header \<equiv> derive_header (hd block)"
  defines "rws \<equiv> df_rows (wide_table block)"
  defines "k \<equiv> length (takeWhile (\<lambda>c. c \<noteq> identifier_name idn header) header)"
  shows "\<exists>ps. long_rows out = map (\<lambda>(j, i). (rws ! i ! k, header ! j, rws ! i ! j)) ps
           \<and> sorted_wrt (\<lambda>(j, i) (j', i'). j < j' \<or> (j = j' \<and> i < i')) ps
           \<and> set ps = {(j, i). j < length header \<and> j \<noteq> k \<and> i < length rws
                                 \<and> rws ! i ! j \<noteq> CNone}"
proof -
  define col where
    "col = (\<lambda>j. map (\<lambda>i. (j, i)) (filter (\<lambda>i. rws ! i ! j \<noteq> CNone) [0..<length rws]))"
  define js where "js = filter (\<lambda>j. j \<noteq> k) [0..<length header]"
  define ps where "ps = concat (map col js)"
  have rows: "long_rows out
       = concat (map (\<lambda>j. map (\<lambda>r. (r ! k, header ! j, r ! j)) (filter (\<lambda>r. r ! j \<noteq> CNone) rws)) js)"
    unfolding js_def k_def header_def rws_def by (rule reshape_Inr(2) [OF assms(1)])
  have percol: "map (\<lambda>r. (r ! k, header ! j, r ! j)) (filter (\<lambda>r. r ! j \<noteq> CNone) rws)
      = map (\<lambda>(j, i). (rws ! i ! k, header ! j, rws ! i ! j)) (col j)" for j
    unfolding col_def by (subst filter_as_indices) (simp add: o_def)
  have 1: "long_rows out = map (\<lambda>(j, i). (rws ! i ! k, header ! j, rws ! i ! j)) ps"
    unfolding rows ps_def by (simp add: map_concat percol o_def)
  have 2: "sorted_wrt (\<lambda>(j, i) (j', i'). j < j' \<or> (j = j' \<and> i < i')) ps"
    unfolding ps_def
  proof (rule sorted_wrt_concat_map)
    show "sorted_wrt (<) js" unfolding js_def by (rule sorted_filter_upt)
    show "\<forall>j\<in>set js. sorted_wrt (\<lambda>(j, i) (j', i'). j < j' \<or> (j = j' \<and> i < i')) (col j)"
      unfolding col_def using sorted_filter_upt
      by (simp add: sorted_wrt_map)
    show "\<forall>j\<in>set js. \<forall>j'\<in>set js. j < j' \<longrightarrow>
           (\<forall>x\<in>set (col j). \<forall>y\<in>set (col j'). (case x of (j, i) \<Rightarrow> \<lambda>(j', i'). j < j' \<or> (j = j' \<and> i < i')) y)"
      unfolding col_def by auto
  qed
  have 3: "set ps = {(j, i). j < length header \<and> j \<noteq> k \<and> i < length rws \<and> rws ! i ! j \<noteq> CNone}"
    unfolding ps_def col_def js_def by auto
  show ?thesis using 1 2 3 by blast
qed

lemma lex_sorted_distinct:
  fixes ps :: "(nat \<times> nat) list"
  assumes "sorted_wrt (\<lambda>(j, i) (j', i'). j < j' \<or> (j = j' \<and> i < i')) ps"
  shows "distinct ps"
  using assms by (induction ps) auto

lemma read_block_rectangular:
  assumes "read_block_from_header ws header_cell = Inr block" "row \<in> set block"
  shows "length row = length (hd block)"
proof -
  obtain start_r start_c where a: "a1_to_rc header_cell = Inr (start_r, start_c)"
    using assms(1) by (auto simp: read_block_from_header_def split: sum.splits)
  obtain data where d: "read_rows ws start_r start_c = Inr data"
    using assms(1) a by (auto simp: read_block_from_header_def split: sum.splits)
  define end_c where "end_c = trim_end (col_is_all_none data) (length (hd data))"
  define end_r where "end_r = trim_end (row_is_all_none (map (take end_c) data)) (length data)"
  note res = read_block_result [OF a d, folded end_c_def, folded end_r_def]
  have blk: "block = take end_r (map (take end_c) data)"
    using assms(1) res by (auto split: if_splits)
  have rect: "\<forall>r\<in>set data. length r = length (hd data)"
    using read_rows_rectangular [OF d] by blast
  have "\<forall>r\<in>set block. length r = min (length (hd data)) end_c"
    unfolding blk using rect by (auto dest!: in_set_takeD)
  moreover have "hd block \<in> set block"
    using assms(2) by (cases block) auto
  ultimately show ?thesis using assms(2) by simp
qed

lemma years_block:
  "read_block_from_header sheet_years ''A1''
     = Inr [[CStr ''id'', CStr ''2020'', CStr ''2021''], [CStr ''x'', CInt 10, CNone],
            [CStr ''y'', CNone, CInt 30]]"
  by code_simp

lemma years_long:
  "reshape [[CStr ''id'', CStr ''2020'', CStr ''2021''], [CStr ''x'', CInt 10, CNone],
            [CStr ''y'', CNone, CInt 30]] None ''variable'' ''value''
     = Inr \<lparr>long_columns = [''id'', ''variable'', ''value''],
            long_rows = [(CStr ''x'', ''2020'', CInt 10), (CStr ''y'', ''2021'', CInt 30)]\<rparr>"
  by code_simp

lemma full_block:
  "read_block_from_header sheet_full ''A1''
     = Inr [[CStr ''id'', CStr ''a'', CStr ''b''], [CStr ''x'', CInt 1, CInt 2],
            [CStr ''y'', CInt 3, CInt 4]]"
  by code_simp

lemma full_long:
  "reshape [[CStr ''id'', CStr ''a'', CStr ''b''], [CStr ''x'', CInt 1, CInt 2],
            [CStr ''y'', CInt 3, CInt 4]] None ''variable'' ''value''
     = Inr \<lparr>long_columns = [''id'', ''variable'', ''value''],
            long_rows = [(CStr ''x'', ''a'', CInt 1), (CStr ''y'', ''a'', CInt 3),
                         (CStr ''x'', ''b'', CInt 2), (CStr ''y'', ''b'', CInt 4)]\<rparr>"
  by code_simp

lemma ex_drop_third: "\<exists>x. A x \<and> B x \<and> C x \<Longrightarrow> \<exists>x. A x \<and> B x"
  by blast

subsection \<open>Claim C1: the order of the records\<close>

text \<open>
  C1 as stated fails. With two value columns and two full rows the records come column
  by column: the record of the second row for column \<^verbatim>\<open>a\<close> comes before the record of
  the first row for column \<^verbatim>\<open>b\<close>.
\<close>

theorem reshape_not_row_major:
  "read_block_from_header sheet_full ''A1''
     = Inr [[CStr ''id'', CStr ''a'', CStr ''b''], [CStr ''x'', CInt 1, CInt 2],
            [CStr ''y'', CInt 3, CInt 4]]
   \<and> reshape [[CStr ''id'', CStr ''a'', CStr ''b''], [CStr ''x'', CInt 1, CInt 2],
               [CStr ''y'', CInt 3, CInt 4]] None ''variable'' ''value''
     = Inr \<lparr>long_columns = [''id'', ''variable'', ''value''],
            long_rows = [(CStr ''x'', ''a'', CInt 1), (CStr ''y'', ''a'', CInt 3),
                         (CStr ''x'', ''b'', CInt 2), (CStr ''y'', ''b'', CInt 4)]\<rparr>"
  using full_block full_long by simp

text \<open>
  C1, as amended. The records are in column-major order: each record is that of a pair
  (value column \<open>j\<close>, surviving row \<open>i\<close>), and the pairs are listed by increasing
  column and, within one column, by increasing row. So all records of the first
  non-identifier column come first, in row order, then all records of the second, and
  so on. For the header \<^verbatim>\<open>id, 2020, 2021\<close> and the rows \<^verbatim>\<open>(x, 10, None)\<close>,
  \<^verbatim>\<open>(y, None, 30)\<close> the result is \<^verbatim>\<open>(x, 2020, 10)\<close>, \<^verbatim>\<open>(y, 2021, 30)\<close>, in that order.
\<close>

theorem reshape_column_major:
  assumes "read_block_from_header ws header_cell = Inr block"
    and "reshape block id_col_name var_name value_name = Inr out"
  defines "header \<equiv> derive_header (hd block)"
  defines "rws \<equiv> df_rows (wide_table block)"
  defines "k \<equiv> length (takeWhile (\<lambda>c. c \<noteq> identifier_name id_col_name header) header)"
  shows "(\<exists>ps. long_rows out = map (\<lambda>(j, i). (rws ! i ! k, header ! j, rws ! i ! j)) ps
            \<and> sorted_wrt (\<lambda>(j, i) (j', i'). j < j' \<or> (j = j' \<and> i < i')) ps
            \<and> (\<forall>(j, i)\<in>set ps. j < length header \<and> j \<noteq> k \<and> i < length rws))
       \<and> read_block_from_header sheet_years ''A1''
           = Inr [[CStr ''id'', CStr ''2020'', CStr ''2021''], [CStr ''x'', CInt 10, CNone],
                  [CStr ''y'', CNone, CInt 30]]
       \<and> reshape [[CStr ''id'', CStr ''2020'', CStr ''2021''], [CStr ''x'', CInt 10, CNone],
                   [CStr ''y'', CNone, CInt 30]] None ''variable'' ''value''
           = Inr \<lparr>long_columns = [''id'', ''variable'', ''value''],
                  long_rows = [(CStr ''x'', ''2020'', CInt 10), (CStr ''y'', ''2021'', CInt 30)]\<rparr>"
proof -
  from reshape_pairs [OF assms(2)] obtain ps where
    1: "long_rows out = map (\<lambda>(j, i). (rws ! i ! k, header ! j, rws ! i ! j)) ps"
    and 2: "sorted_wrt (\<lambda>(j, i) (j', i'). j < j' \<or> (j = j' \<and> i < i')) ps"
    and 3: "set ps = {(j, i). j < length header \<and> j \<noteq> k \<and> i < length rws
                                 \<and> rws ! i ! j \<noteq> CNone}"
    unfolding header_def rws_def k_def by blast
  have 4: "\<forall>(j, i)\<in>set ps. j < length header \<and> j \<noteq> k \<and> i < length rws"
    unfolding 3 by auto
  show ?thesis using 1 2 4 years_block years_long by blast
qed

text \<open>The theorem on the sheet with two full rows.\<close>

theorem reshape_column_major_witness:
  "\<exists>ps. [(CStr ''x'', ''a'', CInt 1), (CStr ''y'', ''a'', CInt 3),
         (CStr ''x'', ''b'', CInt 2), (CStr ''y'', ''b'', CInt 4)]
        = map (\<lambda>(j, i). ([[CStr ''x'', CInt 1, CInt 2], [CStr ''y'', CInt 3, CInt 4]] ! i ! 0,
                          [''id'', ''a'', ''b''] ! j,
                          [[CStr ''x'', CInt 1, CInt 2], [CStr ''y'', CInt 3, CInt 4]] ! i ! j)) ps
      \<and> sorted_wrt (\<lambda>(j, i) (j', i'). j < j' \<or> (j = j' \<and> i < i')) ps"
proof -
  have h: "derive_header [CStr ''id'', CStr ''a'', CStr ''b''] = [''id'', ''a'', ''b'']"
    by code_simp
  have w: "df_rows (wide_table [[CStr ''id'', CStr ''a'', CStr ''b''], [CStr ''x'', CInt 1, CInt 2],
            [CStr ''y'', CInt 3, CInt 4]]) = [[CStr ''x'', CInt 1, CInt 2], [CStr ''y'', CInt 3, CInt 4]]"
    by code_simp
  show ?thesis
    using reshape_column_major [OF full_block full_long, THEN conjunct1, THEN ex_drop_third]
    by (simp add: h w identifier_name_def)
qed

lemma blank_cell_block:
  "read_block_from_header sheet_blank_cell ''A1''
     = Inr [[CStr ''id'', CStr ''a''], [CStr ''x'', CStr '' '']]"
  by code_simp

lemma blank_cell_long:
  "reshape [[CStr ''id'', CStr ''a''], [CStr ''x'', CStr '' '']] None ''variable'' ''value''
     = Inr \<lparr>long_columns = [''id'', ''variable'', ''value''],
            long_rows = [(CStr ''x'', ''a'', CStr '' '')]\<rparr>"
  by code_simp

subsection \<open>Claim C2: which cells give a record\<close>

text \<open>
  C2 as stated fails: a cell holding a blank string gives a record. The value
  \<^verbatim>\<open>" "\<close> strips to the empty string, and the long frame holds \<^verbatim>\<open>(x, a, " ")\<close>.
\<close>

theorem reshape_emits_blank_string:
  "read_block_from_header sheet_blank_cell ''A1''
     = Inr [[CStr ''id'', CStr ''a''], [CStr ''x'', CStr '' '']]
   \<and> reshape [[CStr ''id'', CStr ''a''], [CStr ''x'', CStr '' '']] None ''variable'' ''value''
     = Inr \<lparr>long_columns = [''id'', ''variable'', ''value''],
            long_rows = [(CStr ''x'', ''a'', CStr '' '')]\<rparr>
   \<and> strip (py_str (CStr '' '')) = []"
proof -
  have "strip (py_str (CStr '' '')) = []" by code_simp
  then show ?thesis using blank_cell_block blank_cell_long by simp
qed

text \<open>
  C2, as amended. For every surviving row and every non-identifier column, the record
  (identifier value, column name, cell value) is in the long frame if and only if the
  cell is not null. Every record of the long frame is such a record and has a value
  that is not null, and the frame has exactly one record for each pair of a surviving
  row and a non-identifier column whose cell is not null. A blank string is not null.
\<close>

theorem reshape_emits_iff_not_null:
  assumes "read_block_from_header ws header_cell = Inr block"
    and "reshape block id_col_name var_name value_name = Inr out"
  defines "header \<equiv> derive_header (hd block)"
  defines "rws \<equiv> df_rows (wide_table block)"
  defines "k \<equiv> length (takeWhile (\<lambda>c. c \<noteq> identifier_name id_col_name header) header)"
  shows "(\<forall>i j. i < length rws \<and> j < length header \<and> j \<noteq> k
            \<longrightarrow> ((rws ! i ! k, header ! j, rws ! i ! j) \<in> set (long_rows out)
                   \<longleftrightarrow> rws ! i ! j \<noteq> CNone))
       \<and> (\<forall>rec\<in>set (long_rows out). snd (snd rec) \<noteq> CNone
             \<and> (\<exists>i j. i < length rws \<and> j < length header \<and> j \<noteq> k
                       \<and> rec = (rws ! i ! k, header ! j, rws ! i ! j)))
       \<and> length (long_rows out)
            = card {(j, i). j < length header \<and> j \<noteq> k \<and> i < length rws \<and> rws ! i ! j \<noteq> CNone}"
proof -
  from reshape_pairs [OF assms(2)] obtain ps where
    1: "long_rows out = map (\<lambda>(j, i). (rws ! i ! k, header ! j, rws ! i ! j)) ps"
    and 2: "sorted_wrt (\<lambda>(j, i) (j', i'). j < j' \<or> (j = j' \<and> i < i')) ps"
    and 3: "set ps = {(j, i). j < length header \<and> j \<noteq> k \<and> i < length rws
                                 \<and> rws ! i ! j \<noteq> CNone}"
    unfolding header_def rws_def k_def by blast
  have mem: "rec \<in> set (long_rows out) \<longleftrightarrow>
      (\<exists>j i. j < length header \<and> j \<noteq> k \<and> i < length rws \<and> rws ! i ! j \<noteq> CNone
             \<and> rec = (rws ! i ! k, header ! j, rws ! i ! j))" for rec
  proof -
    have "rec \<in> set (long_rows out) \<longleftrightarrow> (\<exists>p\<in>set ps. rec = (\<lambda>(j, i). (rws ! i ! k, header ! j, rws ! i ! j)) p)"
      unfolding 1 set_map image_iff ..
    also have "\<dots> \<longleftrightarrow> (\<exists>j i. (j, i) \<in> set ps \<and> rec = (rws ! i ! k, header ! j, rws ! i ! j))"
      by (simp add: Bex_def split_paired_Ex)
    also have "\<dots> \<longleftrightarrow> (\<exists>j i. j < length header \<and> j \<noteq> k \<and> i < length rws \<and> rws ! i ! j \<noteq> CNone
             \<and> rec = (rws ! i ! k, header ! j, rws ! i ! j))"
      unfolding 3 by auto
    finally show ?thesis .
  qed
  have a: "\<forall>i j. i < length rws \<and> j < length header \<and> j \<noteq> k
            \<longrightarrow> ((rws ! i ! k, header ! j, rws ! i ! j) \<in> set (long_rows out)
                   \<longleftrightarrow> rws ! i ! j \<noteq> CNone)"
  proof (intro allI impI iffI)
    fix i j assume ij: "i < length rws \<and> j < length header \<and> j \<noteq> k"
    {
      assume "(rws ! i ! k, header ! j, rws ! i ! j) \<in> set (long_rows out)"
      then obtain j' i' where "rws ! i' ! j' \<noteq> CNone"
        "(rws ! i ! k, header ! j, rws ! i ! j) = (rws ! i' ! k, header ! j', rws ! i' ! j')"
        unfolding mem by blast
      then show "rws ! i ! j \<noteq> CNone" by simp
    next
      assume "rws ! i ! j \<noteq> CNone"
      then show "(rws ! i ! k, header ! j, rws ! i ! j) \<in> set (long_rows out)"
        unfolding mem using ij by blast
    }
  qed
  have b: "\<forall>rec\<in>set (long_rows out). snd (snd rec) \<noteq> CNone
             \<and> (\<exists>i j. i < length rws \<and> j < length header \<and> j \<noteq> k
                       \<and> rec = (rws ! i ! k, header ! j, rws ! i ! j))"
  proof
    fix rec assume "rec \<in> set (long_rows out)"
    then obtain j i where "j < length header" "j \<noteq> k" "i < length rws" "rws ! i ! j \<noteq> CNone"
      "rec = (rws ! i ! k, header ! j, rws ! i ! j)"
      unfolding mem by blast
    then show "snd (snd rec) \<noteq> CNone
             \<and> (\<exists>i j. i < length rws \<and> j < length header \<and> j \<noteq> k
                       \<and> rec = (rws ! i ! k, header ! j, rws ! i ! j))"
      by auto
  qed
  have "length (long_rows out) = length ps" unfolding 1 by simp
  also have "\<dots> = card (set ps)"
    using lex_sorted_distinct [OF 2] by (simp add: distinct_card)
  finally have c: "length (long_rows out)
            = card {(j, i). j < length header \<and> j \<noteq> k \<and> i < length rws \<and> rws ! i ! j \<noteq> CNone}"
    unfolding 3 .
  show ?thesis using a b c by blast
qed

text \<open>
  The theorem on the sheet of C1, for the second row: its null cell gives no record, its
  other cell gives one.
\<close>

theorem reshape_emits_iff_not_null_witness:
  "read_block_from_header sheet_years ''A1''
     = Inr [[CStr ''id'', CStr ''2020'', CStr ''2021''], [CStr ''x'', CInt 10, CNone],
            [CStr ''y'', CNone, CInt 30]]
   \<and> (CStr ''y'', ''2020'', CNone) \<notin> set [(CStr ''x'', ''2020'', CInt 10), (CStr ''y'', ''2021'', CInt 30)]
   \<and> (CStr ''y'', ''2021'', CInt 30) \<in> set [(CStr ''x'', ''2020'', CInt 10), (CStr ''y'', ''2021'', CInt 30)]"
proof -
  have h: "derive_header [CStr ''id'', CStr ''2020'', CStr ''2021''] = [''id'', ''2020'', ''2021'']"
    by code_simp
  have w: "df_rows (wide_table [[CStr ''id'', CStr ''2020'', CStr ''2021''],
             [CStr ''x'', CInt 10, CNone], [CStr ''y'', CNone, CInt 30]])
           = [[CStr ''x'', CInt 10, CNone], [CStr ''y'', CNone, CInt 30]]"
    by code_simp
  note t = reshape_emits_iff_not_null [OF years_block years_long, THEN conjunct1]
  have 1: "(CStr ''y'', ''2020'', CNone) \<notin> set [(CStr ''x'', ''2020'', CInt 10), (CStr ''y'', ''2021'', CInt 30)]"
    using t [THEN spec, THEN spec, of 1 1] by (simp add: h w identifier_name_def)
  have 2: "(CStr ''y'', ''2021'', CInt 30) \<in> set [(CStr ''x'', ''2020'', CInt 10), (CStr ''y'', ''2021'', CInt 30)]"
    using t [THEN spec, THEN spec, of 1 2] by (simp add: h w identifier_name_def)
  show ?thesis using 1 2 years_block by blast
qed

lemma blank_row_block:
  "read_block_from_header sheet_blank_row ''A1''
     = Inr [[CStr ''id'', CStr ''a''], [CStr [], CStr '' ''], [CStr ''x'', CInt 1]]"
  by code_simp

lemma null_row_block:
  "read_block_from_header sheet_null_row ''A1''
     = Inr [[CStr ''id'', CStr ''a''], [CNone, CNone], [CStr ''x'', CInt 1]]"
  by code_simp

subsection \<open>Claim C3: which rows are dropped\<close>

text \<open>
  C3 as stated fails: a data row that holds blank strings only, followed by a row
  with data, is kept by \<^verbatim>\<open>dropna\<close>, and gives a record.
\<close>

theorem wide_table_keeps_blank_row:
  "read_block_from_header sheet_blank_row ''A1''
     = Inr [[CStr ''id'', CStr ''a''], [CStr [], CStr '' ''], [CStr ''x'', CInt 1]]
   \<and> list_all is_empty_cell [CStr [], CStr '' '']
   \<and> df_rows (wide_table [[CStr ''id'', CStr ''a''], [CStr [], CStr '' ''], [CStr ''x'', CInt 1]])
     = [[CStr [], CStr '' ''], [CStr ''x'', CInt 1]]
   \<and> reshape [[CStr ''id'', CStr ''a''], [CStr [], CStr '' ''], [CStr ''x'', CInt 1]]
        None ''variable'' ''value''
     = Inr \<lparr>long_columns = [''id'', ''variable'', ''value''],
            long_rows = [(CStr [], ''a'', CStr '' ''), (CStr ''x'', ''a'', CInt 1)]\<rparr>"
proof -
  have 1: "list_all is_empty_cell [CStr [], CStr '' '']" by code_simp
  have 2: "df_rows (wide_table [[CStr ''id'', CStr ''a''], [CStr [], CStr '' ''], [CStr ''x'', CInt 1]])
     = [[CStr [], CStr '' ''], [CStr ''x'', CInt 1]]" by code_simp
  have 3: "reshape [[CStr ''id'', CStr ''a''], [CStr [], CStr '' ''], [CStr ''x'', CInt 1]]
        None ''variable'' ''value''
     = Inr \<lparr>long_columns = [''id'', ''variable'', ''value''],
            long_rows = [(CStr [], ''a'', CStr '' ''), (CStr ''x'', ''a'', CInt 1)]\<rparr>" by code_simp
  show ?thesis using blank_row_block 1 2 3 by simp
qed

text \<open>
  C3, as amended. Before unpivoting, the data rows (all rows but the header row) in
  which every cell is null are dropped, and no other row is: the frame keeps, in their
  order, exactly the data rows that hold a cell other than null. Its column names are
  the derived header names.
\<close>

theorem wide_table_drops_null_rows:
  assumes "read_block_from_header ws header_cell = Inr block"
  shows "df_rows (wide_table block) = filter (\<lambda>r. \<exists>v\<in>set r. v \<noteq> CNone) (tl block)
       \<and> (\<forall>r. r \<in> set (df_rows (wide_table block))
               \<longleftrightarrow> r \<in> set (tl block) \<and> (\<exists>v\<in>set r. v \<noteq> CNone))
       \<and> subseq (df_rows (wide_table block)) (tl block)
       \<and> df_columns (wide_table block) = derive_header (hd block)"
proof -
  have 1: "df_rows (wide_table block) = filter (\<lambda>r. \<exists>v\<in>set r. v \<noteq> CNone) (tl block)"
    by (simp add: wide_table_def dropna_all_def isna_def list_all_iff)
  have 2: "\<forall>r. r \<in> set (df_rows (wide_table block))
               \<longleftrightarrow> r \<in> set (tl block) \<and> (\<exists>v\<in>set r. v \<noteq> CNone)"
    unfolding 1 by auto
  have 3: "subseq (df_rows (wide_table block)) (tl block)"
    unfolding 1 by (rule subseq_filter_left)
  have 4: "df_columns (wide_table block) = derive_header (hd block)"
    by (simp add: wide_table_def dropna_all_def)
  show ?thesis using 1 2 3 4 by blast
qed

text \<open>The theorem on a sheet whose middle row is null throughout.\<close>

theorem wide_table_drops_null_rows_witness:
  "read_block_from_header sheet_null_row ''A1''
     = Inr [[CStr ''id'', CStr ''a''], [CNone, CNone], [CStr ''x'', CInt 1]]
   \<and> df_rows (wide_table [[CStr ''id'', CStr ''a''], [CNone, CNone], [CStr ''x'', CInt 1]])
     = [[CStr ''x'', CInt 1]]"
  using wide_table_drops_null_rows [OF null_row_block, THEN conjunct1] null_row_block
  by simp

lemma length_derive_header: "length (derive_header row) = length row"
  by (simp add: derive_header_def Let_def)

lemma count_list_all_same: "\<forall>c\<in>set xs. c = x \<Longrightarrow> count_list xs x = length xs"
  by (induction xs) auto

lemma other_label_exists:
  assumes "count_list xs x = 1" "2 \<le> length xs"
  shows "filter (\<lambda>c. c \<noteq> x) xs \<noteq> []"
proof
  assume "filter (\<lambda>c. c \<noteq> x) xs = []"
  then have "\<forall>c\<in>set xs. c = x" by (simp add: filter_empty_conv)
  then have "count_list xs x = length xs" by (rule count_list_all_same)
  then show False using assms by simp
qed

lemma reshape_header_only:
  assumes len: "2 \<le> length first_row"
    and cnt: "count_list (derive_header first_row)
                (identifier_name id_col_name (derive_header first_row)) = 1"
    and val: "value_name \<notin> set (derive_header first_row)"
    and var: "var_name \<noteq> identifier_name id_col_name (derive_header first_row)"
             "var_name \<noteq> value_name"
  shows "reshape [first_row] id_col_name var_name value_name
       = Inr \<lparr>long_columns = [identifier_name id_col_name (derive_header first_row),
                               var_name, value_name],
              long_rows = []\<rparr>"
proof -
  define header where "header = derive_header first_row"
  define idc where "idc = identifier_name id_col_name header"
  have wt: "wide_table [first_row] = \<lparr>df_columns = header, df_rows = []\<rparr>"
    by (simp add: wide_table_def dropna_all_def header_def)
  have "0 < count_list header idc" using cnt unfolding header_def idc_def by simp
  then have mem: "idc \<in> set header"
    by (metis count_list_0_iff less_numeral_extra(3))
  have vc: "filter (\<lambda>c. c \<noteq> idc) header \<noteq> []"
    using cnt len unfolding header_def idc_def
    by (intro other_label_exists) (simp_all add: length_derive_header)
  have m: "melt \<lparr>df_columns = header, df_rows = []\<rparr> idc var_name value_name
         = Inr \<lparr>long_columns = [idc, var_name, value_name], long_rows = []\<rparr>"
    using cnt val var unfolding header_def idc_def melt_def Let_def by simp
  show ?thesis
    unfolding reshape_def Let_def wt
    using mem vc m unfolding header_def idc_def by simp
qed

lemma same_names_block:
  "read_block_from_header sheet_same_names ''A1'' = Inr [[CStr ''a'', CStr ''a'']]"
  by code_simp

subsection \<open>Claim C10: a block that is a header row only\<close>

text \<open>
  C10 as stated fails: when the only row is a header row of two cells with the same
  text, no column is left beside the identifier column, and the conversion stops with
  the error for no value columns.
\<close>

theorem header_only_same_names_fails:
  "read_block_from_header sheet_same_names ''A1'' = Inr [[CStr ''a'', CStr ''a'']]
   \<and> wide_to_long_from_excel True (book_of sheet_same_names) (Path [''home''] ''data.xlsx'')
        ''A1'' None None ''variable'' ''value''
     = Inl NoValueColumns"
proof -
  have "wide_to_long_from_excel True (book_of sheet_same_names) (Path [''home''] ''data.xlsx'')
        ''A1'' None None ''variable'' ''value'' = Inl NoValueColumns"
    by code_simp
  then show ?thesis using same_names_block by simp
qed

text \<open>
  C10, as amended. Let the trimmed block be one row of at least two cells, and let the
  identifier name occur exactly once among the derived header names, the value name be
  none of them, and the variable name differ from the identifier name and from the value
  name. Then reshaping gives a long frame without records, and the conversion of an
  existing file with a final path component succeeds: it writes a file that holds the
  header row of three names only, and returns the path of that file.
\<close>

theorem header_only_block_writes_header:
  assumes "path_exists"
    and "select_sheet wb sheet_name = Inr ws"
    and "read_block_from_header ws header_cell = Inr [first_row]"
    and "2 \<le> length first_row"
    and "count_list (derive_header first_row)
           (identifier_name id_col_name (derive_header first_row)) = 1"
    and "value_name \<notin> set (derive_header first_row)"
    and "var_name \<noteq> identifier_name id_col_name (derive_header first_row)"
    and "var_name \<noteq> value_name"
    and "path_name input_path \<noteq> []"
  shows "reshape [first_row] id_col_name var_name value_name
           = Inr \<lparr>long_columns = [identifier_name id_col_name (derive_header first_row),
                                   var_name, value_name],
                  long_rows = []\<rparr>
       \<and> (\<exists>out wf. wide_to_long_from_excel path_exists wb input_path header_cell sheet_name
                       id_col_name var_name value_name = Inr (out, wf)
              \<and> file_path wf = out
              \<and> file_rows wf
                  = [[CStr (identifier_name id_col_name (derive_header first_row)),
                      CStr var_name, CStr value_name]])"
proof -
  note r = reshape_header_only [OF assms(4-8)]
  have "\<exists>out wf. write_long input_path
            \<lparr>long_columns = [identifier_name id_col_name (derive_header first_row),
                             var_name, value_name], long_rows = []\<rparr> = Inr (out, wf)
          \<and> file_path wf = out
          \<and> file_rows wf = [[CStr (identifier_name id_col_name (derive_header first_row)),
                             CStr var_name, CStr value_name]]"
    unfolding write_long_general [OF assms(9)] Let_def by (simp add: table_rows_def)
  then have "\<exists>out wf. wide_to_long_from_excel path_exists wb input_path header_cell sheet_name
                       id_col_name var_name value_name = Inr (out, wf)
              \<and> file_path wf = out
              \<and> file_rows wf
                  = [[CStr (identifier_name id_col_name (derive_header first_row)),
                      CStr var_name, CStr value_name]]"
    unfolding wide_to_long_from_excel_def using assms(1-3) r by simp
  then show ?thesis using r by blast
qed

lemma header_only_block:
  "read_block_from_header sheet_header_only ''A1'' = Inr [[CStr ''id'', CStr ''a'']]"
  by code_simp

text \<open>The theorem on a sheet that holds the header row \<^verbatim>\<open>id, a\<close> only.\<close>

theorem header_only_block_writes_header_witness:
  "read_block_from_header sheet_header_only ''A1'' = Inr [[CStr ''id'', CStr ''a'']]
   \<and> (2::nat) \<le> length [CStr ''id'', CStr ''a'']
   \<and> (\<exists>out wf. wide_to_long_from_excel True (book_of sheet_header_only)
           (Path [''home''] ''data.xlsx'') ''A1'' None None ''variable'' ''value'' = Inr (out, wf)
         \<and> file_path wf = out
         \<and> file_rows wf = [[CStr ''id'', CStr ''variable'', CStr ''value'']])"
proof -
  have h: "derive_header [CStr ''id'', CStr ''a''] = [''id'', ''a'']" by code_simp
  have s: "select_sheet (book_of sheet_header_only) None = Inr sheet_header_only"
    by (simp add: select_sheet_def book_of_def)
  have "\<exists>out wf. wide_to_long_from_excel True (book_of sheet_header_only)
           (Path [''home''] ''data.xlsx'') ''A1'' None None ''variable'' ''value'' = Inr (out, wf)
         \<and> file_path wf = out
         \<and> file_rows wf = [[CStr ''id'', CStr ''variable'', CStr ''value'']]"
    using header_only_block_writes_header
      [of True "book_of sheet_header_only" None sheet_header_only "''A1''"
          "[CStr ''id'', CStr ''a'']" None "''value''" "''variable''" "Path [''home''] ''data.xlsx''",
       OF _ s header_only_block]
    by (simp add: h identifier_name_def)
  then show ?thesis using header_only_block by simp
qed

end
